theory Spec2Isabelle
  imports Complex_Main "HOL-Library.Sublist"
begin

section \<open>Python values, exceptions and dictionaries\<close>

text \<open>
  The exceptions that the functions of \<^verbatim>\<open>dbx/utils/common.py\<close> raise or let through.
  A raising call is a result \<open>Inl e\<close>. \<open>OtherError\<close> carries the message of an exception
  raised by a remote service; \<open>OutsideModel\<close> marks a JSON text whose value is not
  representable here (a number with a fraction or an exponent, a code point above 255):
  about such a text the model says nothing.
\<close>

datatype exn =
    FileNotFoundError
  | IsADirectoryError
  | NotADirectoryError
  | FileExistsError
  | SameFileError
  | JSONDecodeError
  | AttributeError
  | IndexError
  | HTTPError
  | OtherError string
  | OutsideModel

text \<open>
  Python values of JSON shape, as \<^verbatim>\<open>json.load\<close> returns them: \<open>JNull\<close> is \<^verbatim>\<open>None\<close>, a
  \<^verbatim>\<open>dict\<close> is the list of its items in insertion order (its keys are distinct, see
  \<open>wf_json\<close>), a \<^verbatim>\<open>str\<close> is a \<open>string\<close>. Floating-point numbers are left out.
\<close>

datatype json =
    JNull
  | JBool bool
  | JInt int
  | JStr string
  | JList "json list"
  | JObj "(string \<times> json) list"

type_synonym ('k, 'v) dict = "('k \<times> 'v) list"

text \<open>\<^verbatim>\<open>d[k] = v\<close>: an existing key keeps its place, a new key goes last.\<close>

fun dict_set :: "'k \<Rightarrow> 'v \<Rightarrow> ('k, 'v) dict \<Rightarrow> ('k, 'v) dict" where
  "dict_set k v [] = [(k, v)]"
| "dict_set k v ((k', v') # d) =
     (if k' = k then (k', v) # d else (k', v') # dict_set k v d)"

text \<open>\<^verbatim>\<open>d.update(new)\<close>: the items of \<open>new\<close> are stored one by one, in order.\<close>

definition dict_update :: "('k, 'v) dict \<Rightarrow> ('k, 'v) dict \<Rightarrow> ('k, 'v) dict" where
  "dict_update d new = foldl (\<lambda>acc (k, v). dict_set k v acc) d new"

text \<open>\<^verbatim>\<open>d.get(k)\<close> on a dictionary of JSON values: \<^verbatim>\<open>None\<close> when the key is missing.\<close>

definition dict_get :: "(string, json) dict \<Rightarrow> string \<Rightarrow> json" where
  "dict_get d k = (case map_of d k of None \<Rightarrow> JNull | Some v \<Rightarrow> v)"

text \<open>The invariant of Python dictionaries: no key twice, at every depth.\<close>

fun wf_json :: "json \<Rightarrow> bool" where
  "wf_json (JList xs) = list_all wf_json xs"
| "wf_json (JObj kvs) = (distinct (map fst kvs) \<and> list_all (\<lambda>kv. wf_json (snd kv)) kvs)"
| "wf_json _ = True"

text \<open>\<^verbatim>\<open>s.split(c)\<close> for a separator of one character: never the empty list.\<close>

fun split_on :: "char \<Rightarrow> string \<Rightarrow> string list" where
  "split_on c [] = [[]]"
| "split_on c (x # xs) =
     (if x = c then [] # split_on c xs
      else (let r = split_on c xs in (x # hd r) # tl r))"

section \<open>parse_multiple\<close>

text \<open>
  The dictionary comprehension \<^verbatim>\<open>{t[0]: t[1] for t in tags_splitted}\<close>: the items are
  stored in order, and \<^verbatim>\<open>t[1]\<close> (or \<^verbatim>\<open>t[0]\<close>) out of range raises \<^verbatim>\<open>IndexError\<close>.
\<close>

fun tags_dict :: "string list list \<Rightarrow> (string, string) dict \<Rightarrow> exn + (string, string) dict" where
  "tags_dict [] d = Inr d"
| "tags_dict (t # ts) d =
     (case t of
        k # v # _ \<Rightarrow> tags_dict ts (dict_set k v d)
      | _ \<Rightarrow> Inl IndexError)"

definition parse_multiple :: "string list \<Rightarrow> exn + (string, string) dict" where
  "parse_multiple multiple_argument =
     (let tags_splitted = map (split_on CHR ''='') multiple_argument
      in tags_dict tags_splitted [])"

text \<open>
  The segment before the first \<^verbatim>\<open>=\<close> and the segment between the first and the
  second, stated without \<open>split_on\<close>.
\<close>

definition seg_key :: "string \<Rightarrow> string" where
  "seg_key t = takeWhile (\<lambda>c. c \<noteq> CHR ''='') t"

definition seg_val :: "string \<Rightarrow> string" where
  "seg_val t = takeWhile (\<lambda>c. c \<noteq> CHR ''='') (tl (dropWhile (\<lambda>c. c \<noteq> CHR ''='') t))"

section \<open>get_current_branch_name\<close>

text \<open>
  What \<^verbatim>\<open>git.Repo(".")\<close> finds: no repository (it raises
  \<^verbatim>\<open>InvalidGitRepositoryError\<close>), a detached HEAD, or a HEAD on a branch.
  \<^verbatim>\<open>os.environ\<close> is a map from names to values.
\<close>

datatype repo = NotARepository | DetachedHead | OnBranch string

definition get_current_branch_name :: "(string \<rightharpoonup> string) \<Rightarrow> repo \<Rightarrow> string option" where
  "get_current_branch_name environ r =
     (case environ ''GITHUB_REF'' of
        Some v \<Rightarrow> Some (last (split_on CHR ''/'' v))
      | None \<Rightarrow>
          (case r of
             NotARepository \<Rightarrow> None
           | DetachedHead \<Rightarrow> None
           | OnBranch name \<Rightarrow> Some name))"

section \<open>Remote calls and the retry decorator\<close>

text \<open>
  The remote side is outside the program. A call is what the program sends; the services
  answer by a function \<open>srv\<close> of the calls made so far and of the call, with a value or
  an exception. The state is the trace of what the program did, oldest first: its calls
  and its \<^verbatim>\<open>time.sleep\<close>s. \<open>Query method url data\<close> is \<^verbatim>\<open>ApiClient.perform_query\<close> (the url is
  the client's url followed by the path); \<open>LogArtifact local remote\<close> is
  \<^verbatim>\<open>mlflow.log_artifact\<close>.
\<close>

datatype call =
    Query string string json
  | LogArtifact string string

datatype 'd event = Called call | Slept 'd

type_synonym 'd remote = "'d event list"

type_synonym service = "call list \<Rightarrow> call \<Rightarrow> exn + json"

fun calls :: "'d remote \<Rightarrow> call list" where
  "calls [] = []"
| "calls (Called c # tr) = c # calls tr"
| "calls (Slept d # tr) = calls tr"

fun sleeps :: "'d remote \<Rightarrow> 'd list" where
  "sleeps [] = []"
| "sleeps (Called c # tr) = sleeps tr"
| "sleeps (Slept d # tr) = d # sleeps tr"

definition perform :: "service \<Rightarrow> call \<Rightarrow> 'd remote \<Rightarrow> (exn + json) \<times> 'd remote" where
  "perform srv c w = (srv (calls w) c, w @ [Called c])"

definition sleep :: "'d \<Rightarrow> 'd remote \<Rightarrow> 'd remote" where
  "sleep d w = w @ [Slept d]"

text \<open>
  The loop of the \<^verbatim>\<open>retry\<close> package, which \<^verbatim>\<open>@retry(tries, delay, backoff)\<close> runs around
  the decorated function (every \<^verbatim>\<open>Exception\<close> is caught, jitter is 0, there is no
  maximal delay):
  \<^verbatim>\<open>
  _tries, _delay = tries, delay
  while _tries:
      try:
          return f()
      except exceptions as e:
          _tries -= 1
          if not _tries:
              raise
          time.sleep(_delay)
          _delay *= backoff
  \<close>
  \<open>tries\<close> is a natural number here: both uses give a positive literal. With no try
  left at the start the loop body never runs and the call returns \<^verbatim>\<open>None\<close>.
\<close>

fun retry_internal ::
  "('d remote \<Rightarrow> (exn + json) \<times> 'd remote) \<Rightarrow> nat \<Rightarrow> 'd::times \<Rightarrow> 'd \<Rightarrow> 'd remote \<Rightarrow>
     (exn + json) \<times> 'd remote" where
  "retry_internal f 0 delay backoff w = (Inr JNull, w)"
| "retry_internal f (Suc n) delay backoff w =
     (case f w of
        (Inr r, w') \<Rightarrow> (Inr r, w')
      | (Inl e, w') \<Rightarrow>
          if n = 0 then (Inl e, w')
          else retry_internal f n (delay * backoff) backoff (sleep delay w'))"

subsection \<open>ApiV1Client\<close>

text \<open>
  The state of an \<^verbatim>\<open>ApiClient\<close> object of databricks-cli, as far as this file reads it:
  its url, and its default headers, a dictionary of its own in the store of objects.
\<close>

type_synonym addr = nat

record api_client =
  url :: string
  default_headers :: addr
  verify :: bool

definition perform_query ::
  "service \<Rightarrow> api_client \<Rightarrow> string \<Rightarrow> string \<Rightarrow> json \<Rightarrow> 'd remote \<Rightarrow> (exn + json) \<times> 'd remote" where
  "perform_query srv client method path data = perform srv (Query method (url client @ path) data)"

definition get_command_status ::
  "service \<Rightarrow> api_client \<Rightarrow> json \<Rightarrow> 'd remote \<Rightarrow> (exn + json) \<times> 'd remote" where
  "get_command_status srv v1_client payload w =
     perform_query srv v1_client ''GET'' ''/commands/status'' payload w"

definition cancel_command ::
  "service \<Rightarrow> api_client \<Rightarrow> json \<Rightarrow> 'd remote \<Rightarrow> (exn + json) \<times> 'd remote" where
  "cancel_command srv v1_client payload w =
     (case perform_query srv v1_client ''POST'' ''/commands/cancel'' payload w of
        (Inr r, w') \<Rightarrow> (Inr JNull, w')
      | (Inl e, w') \<Rightarrow> (Inl e, w'))"

definition execute_command ::
  "service \<Rightarrow> api_client \<Rightarrow> json \<Rightarrow> 'd remote \<Rightarrow> (exn + json) \<times> 'd remote" where
  "execute_command srv v1_client payload w =
     perform_query srv v1_client ''POST'' ''/commands/execute'' payload w"

definition get_context_status ::
  "service \<Rightarrow> api_client \<Rightarrow> json \<Rightarrow> 'd remote \<Rightarrow> (exn + json) \<times> 'd remote" where
  "get_context_status srv v1_client payload w =
     (case perform_query srv v1_client ''GET'' ''/contexts/status'' payload w of
        (Inl HTTPError, w') \<Rightarrow> (Inr JNull, w')
      | (r, w') \<Rightarrow> (r, w'))"

text \<open>\<^verbatim>\<open>@retry(tries=10, delay=5, backoff=5)\<close>: the delays are Python integers.\<close>

definition create_context ::
  "service \<Rightarrow> api_client \<Rightarrow> json \<Rightarrow> int remote \<Rightarrow> (exn + json) \<times> int remote" where
  "create_context srv v1_client payload w =
     retry_internal (perform_query srv v1_client ''POST'' ''/contexts/create'' payload) 10 5 5 w"

subsection \<open>FileUploader.upload_file\<close>

text \<open>
  \<^verbatim>\<open>str(PurePosixPath(p))\<close> and \<^verbatim>\<open>str(PurePosixPath(p).parent)\<close>: empty and \<^verbatim>\<open>.\<close> components
  are dropped, a leading slash is the root (two leading slashes stay two, three or more
  are one), and the path without components is \<^verbatim>\<open>.\<close> or the root.
\<close>

definition posix_root :: "string \<Rightarrow> string" where
  "posix_root p =
     (if take 2 p = ''//'' \<and> take 3 p \<noteq> ''///'' then ''//''
      else if take 1 p = ''/'' then ''/'' else [])"

definition posix_parts :: "string \<Rightarrow> string list" where
  "posix_parts p = filter (\<lambda>x. x \<noteq> [] \<and> x \<noteq> ''.'') (split_on CHR ''/'' p)"

fun join_slash :: "string list \<Rightarrow> string" where
  "join_slash [] = []"
| "join_slash [x] = x"
| "join_slash (x # y # ys) = x @ CHR ''/'' # join_slash (y # ys)"

definition posix_format :: "string \<Rightarrow> string list \<Rightarrow> string" where
  "posix_format anchor parts =
     (if anchor = [] \<and> parts = [] then ''.'' else anchor @ join_slash parts)"

definition posix_str :: "string \<Rightarrow> string" where
  "posix_str p = posix_format (posix_root p) (posix_parts p)"

definition posix_parent :: "string \<Rightarrow> string" where
  "posix_parent p = posix_format (posix_root p) (butlast (posix_parts p))"

text \<open>
  \<^verbatim>\<open>@retry(tries=3, delay=1, backoff=0.3)\<close> around \<^verbatim>\<open>mlflow.log_artifact\<close>. The delays are
  exact rationals here: 0.3 is 3/10, the rounding of floating-point numbers is not
  modelled. The path given is a \<^verbatim>\<open>pathlib.Path\<close> on a POSIX system, so that its string is
  the normalised path; the message echoed on the console is not part of the state, and
  the value returned is the answer of the service (\<^verbatim>\<open>None\<close> for \<^verbatim>\<open>mlflow.log_artifact\<close>).
\<close>

definition upload_file :: "service \<Rightarrow> string \<Rightarrow> rat remote \<Rightarrow> (exn + json) \<times> rat remote" where
  "upload_file srv file_path w =
     retry_internal
       (\<lambda>w. let posix_path_str = posix_str file_path
            in perform srv (LogArtifact (posix_str file_path) (posix_parent posix_path_str)) w)
       3 1 (3 / 10) w"

text \<open>
  The trace of a call that fails \<open>Suc k\<close> times under a backoff schedule: the call, then
  \<open>k\<close> times a sleep and the call again, each delay the one before times the backoff.
\<close>

fun failed_attempts :: "call \<Rightarrow> 'd::times \<Rightarrow> 'd \<Rightarrow> nat \<Rightarrow> 'd event list" where
  "failed_attempts c d b 0 = [Called c]"
| "failed_attempts c d b (Suc k) = Called c # Slept d # failed_attempts c (d * b) b k"

definition always_fails :: "service \<Rightarrow> bool" where
  "always_fails srv = (\<forall>h c. \<exists>e. srv h c = Inl e)"

text \<open>A service that answers every call with an HTTP error.\<close>

definition failing_service :: service where
  "failing_service h c = Inl HTTPError"

section \<open>ApiV1Client.__init__ and the store of objects\<close>

text \<open>
  \<^verbatim>\<open>s.replace(old, new)\<close>: every occurrence of \<open>old\<close>, found from the left and not
  overlapping, is replaced; with an empty \<open>old\<close>, \<open>new\<close> is put before every character and
  at the end.
\<close>

function replace_ne :: "string \<Rightarrow> string \<Rightarrow> string \<Rightarrow> string" where
  "replace_ne old new s =
     (if s = [] then []
      else if old \<noteq> [] \<and> prefix old s then new @ replace_ne old new (drop (length old) s)
      else hd s # replace_ne old new (tl s))"
  by pat_completeness auto
termination
  by (relation "measure (\<lambda>(old, new, s). length s)") auto

definition str_replace :: "string \<Rightarrow> string \<Rightarrow> string \<Rightarrow> string" where
  "str_replace old new s =
     (if old = [] then new @ concat (map (\<lambda>c. c # new) s) else replace_ne old new s)"

text \<open>
  Objects are held in a store and named by their addresses, so that a copy and its
  original are told apart: an address is an index of the store, a new object goes at its
  end. \<^verbatim>\<open>copy.deepcopy\<close> of a client copies the client and the dictionary it refers to;
  strings and booleans are immutable and need no copy.
\<close>

datatype obj = Client api_client | Headers "(string, string) dict"

type_synonym store = "obj list"

definition alloc :: "obj \<Rightarrow> store \<Rightarrow> addr \<times> store" where
  "alloc x h = (length h, h @ [x])"

definition deepcopy :: "addr \<Rightarrow> store \<Rightarrow> (addr \<times> store) option" where
  "deepcopy a h =
     (if a < length h then
        (case h ! a of
           Client c \<Rightarrow>
             (if default_headers c < length h then
                (case h ! default_headers c of
                   Headers d \<Rightarrow>
                     (let (ha, h1) = alloc (Headers d) h;
                          (ca, h2) = alloc (Client (c\<lparr>default_headers := ha\<rparr>)) h1
                      in Some (ca, h2))
                 | _ \<Rightarrow> None)
              else None)
         | _ \<Rightarrow> None)
      else None)"

record api_v1_client =
  v1_client :: addr

definition ApiV1Client_init :: "addr \<Rightarrow> store \<Rightarrow> (api_v1_client \<times> store) option" where
  "ApiV1Client_init api_client h =
     (case deepcopy api_client h of
        None \<Rightarrow> None
      | Some (a, h') \<Rightarrow>
          (case h' ! a of
             Client c \<Rightarrow>
               Some (\<lparr>v1_client = a\<rparr>,
                     h'[a := Client (c\<lparr>url := str_replace ''/api/2.0'' ''/api/1.2'' (url c)\<rparr>)])
           | _ \<Rightarrow> None))"

text \<open>The address holds a client whose headers are in the store.\<close>

definition is_client :: "store \<Rightarrow> addr \<Rightarrow> bool" where
  "is_client h a =
     (a < length h \<and>
      (case h ! a of
         Client c \<Rightarrow> default_headers c < length h \<and>
           (case h ! default_headers c of Headers d \<Rightarrow> True | _ \<Rightarrow> False)
       | _ \<Rightarrow> False))"

definition client_at :: "store \<Rightarrow> addr \<Rightarrow> api_client" where
  "client_at h a = (case h ! a of Client c \<Rightarrow> c)"

text \<open>\<open>old\<close> occurs in \<open>s\<close> at position \<open>i\<close>.\<close>

definition occurs_at :: "string \<Rightarrow> string \<Rightarrow> nat \<Rightarrow> bool" where
  "occurs_at old s i = (i \<le> length s \<and> prefix old (drop i s))"

section \<open>JSON text: json.dump with indent=4 and json.load\<close>

text \<open>
  A file holds text, a \<open>string\<close> whose characters are the code points 0 to 255.
  The text that \<^verbatim>\<open>json.dump(content, f, indent=4)\<close> writes (item separator \<^verbatim>\<open>,\<close>, key
  separator \<^verbatim>\<open>: \<close>, \<^verbatim>\<open>ensure_ascii\<close>) follows the encoder of the \<^verbatim>\<open>json\<close> package.
\<close>

subsection \<open>Encoding\<close>

definition hex_digit :: "nat \<Rightarrow> char" where
  "hex_digit n = ''0123456789abcdef'' ! (n mod 16)"

text \<open>
  A character outside the printable ASCII range, a quote or a backslash is escaped:
  by its short escape when it has one, by \<^verbatim>\<open>\u00XX\<close> otherwise.
\<close>

definition encode_char :: "char \<Rightarrow> string" where
  "encode_char c =
     (if c = CHR 0x22 then [CHR 0x5C, CHR 0x22]
      else if c = CHR 0x5C then [CHR 0x5C, CHR 0x5C]
      else if c = CHR 0x0A then [CHR 0x5C, CHR ''n'']
      else if c = CHR 0x0D then [CHR 0x5C, CHR ''r'']
      else if c = CHR 0x09 then [CHR 0x5C, CHR ''t'']
      else if c = CHR 0x08 then [CHR 0x5C, CHR ''b'']
      else if c = CHR 0x0C then [CHR 0x5C, CHR ''f'']
      else if (of_char c :: nat) < 0x20 \<or> 0x7E < (of_char c :: nat) then
        [CHR 0x5C, CHR ''u'', CHR ''0'', CHR ''0'',
         hex_digit (of_char c div 16), hex_digit (of_char c mod 16)]
      else [c])"

definition encode_basestring_ascii :: "string \<Rightarrow> string" where
  "encode_basestring_ascii s = CHR 0x22 # concat (map encode_char s) @ [CHR 0x22]"

definition digit_char :: "nat \<Rightarrow> char" where
  "digit_char n = char_of (48 + n mod 10)"

fun nat_repr :: "nat \<Rightarrow> string" where
  "nat_repr n = (if n < 10 then [digit_char n] else nat_repr (n div 10) @ [digit_char (n mod 10)])"

declare nat_repr.simps [simp del]

definition int_repr :: "int \<Rightarrow> string" where
  "int_repr i = (if i < 0 then CHR ''-'' # nat_repr (nat (- i)) else nat_repr (nat i))"

definition newline_indent :: "nat \<Rightarrow> string" where
  "newline_indent level = CHR 0x0A # replicate (4 * level) CHR '' ''"

text \<open>\<open>sep.join(xs)\<close>.\<close>

fun join :: "string \<Rightarrow> string list \<Rightarrow> string" where
  "join sep [] = []"
| "join sep [x] = x"
| "join sep (x # y # ys) = x @ sep @ join sep (y # ys)"

fun iterencode :: "nat \<Rightarrow> json \<Rightarrow> string" where
  "iterencode level JNull = ''null''"
| "iterencode level (JBool b) = (if b then ''true'' else ''false'')"
| "iterencode level (JInt i) = int_repr i"
| "iterencode level (JStr s) = encode_basestring_ascii s"
| "iterencode level (JList xs) =
     (if xs = [] then ''[]''
      else ''['' @ newline_indent (Suc level) @
           join ('','' @ newline_indent (Suc level)) (map (iterencode (Suc level)) xs) @
           newline_indent level @ '']'')"
| "iterencode level (JObj kvs) =
     (if kvs = [] then ''{}''
      else ''{'' @ newline_indent (Suc level) @
           join ('','' @ newline_indent (Suc level))
             (map (\<lambda>kv. encode_basestring_ascii (fst kv) @ '': '' @ iterencode (Suc level) (snd kv)) kvs) @
           newline_indent level @ ''}'')"

definition json_dumps :: "json \<Rightarrow> string" where
  "json_dumps v = iterencode 0 v"

subsection \<open>Decoding: the tokens\<close>

text \<open>
  \<^verbatim>\<open>json.load\<close> is modelled in two passes with the results of the scanner of the \<^verbatim>\<open>json\<close>
  package: the text is cut into tokens (white space between tokens is skipped), and the
  tokens are parsed. A number with a fraction or an exponent, \<^verbatim>\<open>NaN\<close> and \<^verbatim>\<open>Infinity\<close>
  are the token \<open>TFloat\<close>; a string with an escape \<^verbatim>\<open>\uXXXX\<close> above 255 is \<open>TBadStr\<close>. A text
  with such a token is parsed like any other, and then answered by \<open>OutsideModel\<close>.
\<close>

datatype token =
    TLBrace | TRBrace | TLBracket | TRBracket | TComma | TColon
  | TNull
  | TBool bool
  | TInt int
  | TStr string
  | TFloat
  | TBadStr

definition is_ws :: "char \<Rightarrow> bool" where
  "is_ws c = (c = CHR '' '' \<or> c = CHR 0x09 \<or> c = CHR 0x0A \<or> c = CHR 0x0D)"

definition is_digit :: "char \<Rightarrow> bool" where
  "is_digit c = (48 \<le> (of_char c :: nat) \<and> (of_char c :: nat) \<le> 57)"

definition digit_val :: "char \<Rightarrow> nat" where
  "digit_val c = of_char c - 48"

definition hex_val :: "char \<Rightarrow> nat option" where
  "hex_val c =
     (if is_digit c then Some (of_char c - 48)
      else if 97 \<le> (of_char c :: nat) \<and> (of_char c :: nat) \<le> 102 then Some (of_char c - 87)
      else if 65 \<le> (of_char c :: nat) \<and> (of_char c :: nat) \<le> 70 then Some (of_char c - 55)
      else None)"

definition hex4 :: "char \<Rightarrow> char \<Rightarrow> char \<Rightarrow> char \<Rightarrow> nat option" where
  "hex4 a b c d =
     (case (hex_val a, hex_val b, hex_val c, hex_val d) of
        (Some x, Some y, Some z, Some w) \<Rightarrow> Some (((x * 16 + y) * 16 + z) * 16 + w)
      | _ \<Rightarrow> None)"

text \<open>The character after a backslash, \<^verbatim>\<open>u\<close> apart.\<close>

definition unescape :: "char \<Rightarrow> char option" where
  "unescape e =
     (if e = CHR 0x22 then Some (CHR 0x22)
      else if e = CHR 0x5C then Some (CHR 0x5C)
      else if e = CHR ''/'' then Some (CHR ''/'')
      else if e = CHR ''b'' then Some (CHR 0x08)
      else if e = CHR ''f'' then Some (CHR 0x0C)
      else if e = CHR ''n'' then Some (CHR 0x0A)
      else if e = CHR ''r'' then Some (CHR 0x0D)
      else if e = CHR ''t'' then Some (CHR 0x09)
      else None)"

text \<open>
  The characters of a string and the text after its closing quote; the characters are
  \<open>None\<close> once a code point above 255 was met.
\<close>

definition push_char ::
  "char option \<Rightarrow> exn + (string option \<times> string) \<Rightarrow> exn + (string option \<times> string)" where
  "push_char x r =
     (case r of
        Inl e \<Rightarrow> Inl e
      | Inr (s, rest) \<Rightarrow>
          Inr ((case (x, s) of (Some c, Some s') \<Rightarrow> Some (c # s') | _ \<Rightarrow> None), rest))"

fun scanstring :: "string \<Rightarrow> exn + (string option \<times> string)" where
  "scanstring [] = Inl JSONDecodeError"
| "scanstring (c # cs) =
     (if c = CHR 0x22 then Inr (Some [], cs)
      else if c = CHR 0x5C then
        (case cs of
           [] \<Rightarrow> Inl JSONDecodeError
         | e # cs' \<Rightarrow>
             if e = CHR ''u'' then
               (case cs' of
                  a # b # c' # d # rest \<Rightarrow>
                    (case hex4 a b c' d of
                       None \<Rightarrow> Inl JSONDecodeError
                     | Some n \<Rightarrow>
                         push_char (if n < 256 then Some (char_of n) else None) (scanstring rest))
                | _ \<Rightarrow> Inl JSONDecodeError)
             else
               (case unescape e of
                  None \<Rightarrow> Inl JSONDecodeError
                | Some ch \<Rightarrow> push_char (Some ch) (scanstring cs')))
      else if (of_char c :: nat) < 0x20 then Inl JSONDecodeError
      else push_char (Some c) (scanstring cs))"

text \<open>
  A number at the head of the text, by the pattern
  \<^verbatim>\<open>(-?(?:0|[1-9]\d*))(\.\d+)?([eE][-+]?\d+)?\<close>: the token and the text after it.
\<close>

definition digits_value :: "string \<Rightarrow> nat" where
  "digits_value ds = foldl (\<lambda>a c. 10 * a + digit_val c) 0 ds"

definition match_frac :: "string \<Rightarrow> string option" where
  "match_frac s =
     (case s of
        c # d # r \<Rightarrow> if c = CHR ''.'' \<and> is_digit d then Some (dropWhile is_digit r) else None
      | _ \<Rightarrow> None)"

definition match_exp :: "string \<Rightarrow> string option" where
  "match_exp s =
     (case s of
        c # r \<Rightarrow>
          if c = CHR ''e'' \<or> c = CHR ''E'' then
            (let r' = (case r of x # r'' \<Rightarrow> if x = CHR ''-'' \<or> x = CHR ''+'' then r'' else r | [] \<Rightarrow> r)
             in (case r' of d # r'' \<Rightarrow> if is_digit d then Some (dropWhile is_digit r'') else None
                 | [] \<Rightarrow> None))
          else None
      | [] \<Rightarrow> None)"

definition match_number :: "string \<Rightarrow> (token \<times> string) option" where
  "match_number s =
     (let neg = (take 1 s = ''-'');
          body = (if neg then drop 1 s else s)
      in (case body of
            [] \<Rightarrow> None
          | d # r \<Rightarrow>
              if \<not> is_digit d then None
              else
                (let ds = (if d = CHR ''0'' then [d] else d # takeWhile is_digit r);
                     r1 = (if d = CHR ''0'' then r else dropWhile is_digit r);
                     frac = match_frac r1;
                     r2 = (case frac of Some x \<Rightarrow> x | None \<Rightarrow> r1);
                     ex = match_exp r2;
                     r3 = (case ex of Some x \<Rightarrow> x | None \<Rightarrow> r2)
                 in if frac = None \<and> ex = None
                    then Some (TInt (if neg then - int (digits_value ds) else int (digits_value ds)), r3)
                    else Some (TFloat, r3))))"

text \<open>A token that is a word: a literal or a number.\<close>

definition scan_word :: "string \<Rightarrow> (token \<times> string) option" where
  "scan_word s =
     (if take 4 s = ''null'' then Some (TNull, drop 4 s)
      else if take 4 s = ''true'' then Some (TBool True, drop 4 s)
      else if take 5 s = ''false'' then Some (TBool False, drop 5 s)
      else
        (case match_number s of
           Some r \<Rightarrow> Some r
         | None \<Rightarrow>
             if take 3 s = ''NaN'' then Some (TFloat, drop 3 s)
             else if take 8 s = ''Infinity'' then Some (TFloat, drop 8 s)
             else if take 9 s = ''-Infinity'' then Some (TFloat, drop 9 s)
             else None))"

definition punct :: "char \<Rightarrow> token option" where
  "punct c =
     (if c = CHR ''{'' then Some TLBrace
      else if c = CHR ''}'' then Some TRBrace
      else if c = CHR ''['' then Some TLBracket
      else if c = CHR '']'' then Some TRBracket
      else if c = CHR '','' then Some TComma
      else if c = CHR '':'' then Some TColon
      else None)"

definition cons_tok :: "token \<Rightarrow> exn + token list \<Rightarrow> exn + token list" where
  "cons_tok t r = (case r of Inl e \<Rightarrow> Inl e | Inr ts \<Rightarrow> Inr (t # ts))"

lemma scanstring_length:
  "scanstring s = Inr (r, rest) \<Longrightarrow> length rest < length s"
proof (induction s arbitrary: r rule: scanstring.induct)
  case 1
  then show ?case by simp
next
  case (2 c cs)
  show ?case
  proof (cases "c = CHR 0x22")
    case True
    with "2.prems" show ?thesis by simp
  next
    case nq: False
    show ?thesis
    proof (cases "c = CHR 0x5C")
      case False
      with nq "2.prems" "2.IH"(3) show ?thesis
        by (fastforce simp: push_char_def split: if_splits sum.splits)
    next
      case True
      with nq "2.prems" obtain e cs' where cs: "cs = e # cs'"
        by (cases cs) auto
      show ?thesis
      proof (cases "e = CHR ''u''")
        case False
        with True nq cs "2.prems" "2.IH"(2) [of e cs'] show ?thesis
          by (fastforce simp: push_char_def split: if_splits sum.splits option.splits)
      next
        case u: True
        with True nq cs "2.prems" obtain a b c' d rest' where
          cs': "cs' = a # b # c' # d # rest'"
          by (auto split: list.splits)
        with u True nq cs "2.prems" "2.IH"(1) [of e cs' a "b # c' # d # rest'" b "c' # d # rest'" c' "d # rest'" d rest']
        show ?thesis
          by (fastforce simp: push_char_def split: if_splits sum.splits option.splits)
      qed
    qed
  qed
qed

lemma match_frac_length: "match_frac s = Some r \<Longrightarrow> length r \<le> length s"
  by (auto simp: match_frac_def le_SucI length_dropWhile_le
      split: list.splits if_splits)

lemma match_exp_length: "match_exp s = Some r \<Longrightarrow> length r \<le> length s"
  by (auto simp: match_exp_def Let_def le_SucI length_dropWhile_le
      split: list.splits if_splits)

lemma match_number_length:
  assumes "match_number s = Some (t, rest)"
  shows "length rest < length s"
proof -
  define body where "body = (if take 1 s = ''-'' then drop 1 s else s)"
  from assms obtain d r where body: "body = d # r"
    unfolding body_def by (cases "if take 1 s = ''-'' then drop 1 s else s")
      (auto simp: match_number_def Let_def)
  define r1 where "r1 = (if d = CHR ''0'' then r else dropWhile is_digit r)"
  define r2 where "r2 = (case match_frac r1 of Some x \<Rightarrow> x | None \<Rightarrow> r1)"
  define r3 where "r3 = (case match_exp r2 of Some x \<Rightarrow> x | None \<Rightarrow> r2)"
  have l1: "length r1 \<le> length r"
    unfolding r1_def by (simp add: length_dropWhile_le)
  have l2: "length r2 \<le> length r1"
    unfolding r2_def using match_frac_length by (cases "match_frac r1") auto
  have l3: "length r3 \<le> length r2"
    unfolding r3_def using match_exp_length by (cases "match_exp r2") auto
  have "rest = r3"
    using assms body unfolding body_def r3_def r2_def r1_def
    by (auto simp: match_number_def Let_def split: if_splits)
  moreover have "length r < length s"
  proof -
    have "length body \<le> length s" unfolding body_def by simp
    with body show ?thesis by simp
  qed
  ultimately show ?thesis using l1 l2 l3 by simp
qed

lemma take_literal:
  "take n s = w \<Longrightarrow> length w = n \<Longrightarrow> 0 < n \<Longrightarrow> length (drop n s) < length s"
proof -
  assume "take n s = w" and "length w = n" and "0 < n"
  then have "min (length s) n = n" by (metis length_take)
  with \<open>0 < n\<close> show ?thesis by simp
qed

lemma scan_word_length: "scan_word s = Some (t, rest) \<Longrightarrow> length rest < length s"
proof -
  assume a: "scan_word s = Some (t, rest)"
  note lit = take_literal [of 4 s "''null''"] take_literal [of 4 s "''true''"]
    take_literal [of 5 s "''false''"] take_literal [of 3 s "''NaN''"]
    take_literal [of 8 s "''Infinity''"] take_literal [of 9 s "''-Infinity''"]
  consider (null) "take 4 s = ''null''" | (true) "take 4 s \<noteq> ''null''" "take 4 s = ''true''"
    | (false) "take 4 s \<noteq> ''null''" "take 4 s \<noteq> ''true''" "take 5 s = ''false''"
    | (other) "take 4 s \<noteq> ''null''" "take 4 s \<noteq> ''true''" "take 5 s \<noteq> ''false''"
    by blast
  then show ?thesis
  proof cases
    case null
    with a lit(1) show ?thesis by (simp add: scan_word_def)
  next
    case true
    with a lit(2) show ?thesis by (simp add: scan_word_def)
  next
    case false
    with a lit(3) show ?thesis by (simp add: scan_word_def)
  next
    case other
    show ?thesis
    proof (cases "match_number s")
      case (Some r)
      with a other have "match_number s = Some (t, rest)"
        by (simp add: scan_word_def)
      then show ?thesis by (rule match_number_length)
    next
      case None
      with a other lit(4,5,6) show ?thesis
        by (auto simp: scan_word_def split: if_splits)
    qed
  qed
qed

function lex :: "string \<Rightarrow> exn + token list" where
  "lex s =
     (case s of
        [] \<Rightarrow> Inr []
      | c # cs \<Rightarrow>
          if is_ws c then lex cs
          else if c = CHR 0x22 then
            (case scanstring cs of
               Inl e \<Rightarrow> Inl e
             | Inr (r, rest) \<Rightarrow>
                 cons_tok (case r of Some str \<Rightarrow> TStr str | None \<Rightarrow> TBadStr) (lex rest))
          else
            (case punct c of
               Some t \<Rightarrow> cons_tok t (lex cs)
             | None \<Rightarrow>
                 (case scan_word s of
                    None \<Rightarrow> Inl JSONDecodeError
                  | Some (t, rest) \<Rightarrow> cons_tok t (lex rest))))"
  by pat_completeness auto
termination
proof (relation "measure length")
  fix s c cs x r rest
  assume "s = c # cs" and "scanstring cs = Inr x" and "(r, rest) = x"
  then show "(rest, s) \<in> measure length"
    using scanstring_length [of cs r rest] by simp
next
  fix s c cs x t rest
  assume "scan_word s = Some x" and "(t, rest) = x"
  then show "(rest, s) \<in> measure length"
    using scan_word_length [of s t rest] by simp
qed simp_all

declare lex.simps [simp del]

subsection \<open>Decoding: the parser\<close>

text \<open>
  The parser reads the tokens one by one and keeps the containers that are still open,
  innermost first. Each open container says what may come next: after \<^verbatim>\<open>[\<close> a value or
  \<^verbatim>\<open>]\<close>; after a comma in an array a value; after a value \<^verbatim>\<open>,\<close> or the closing bracket;
  after \<^verbatim>\<open>{\<close> a key or \<^verbatim>\<open>}\<close>; after a comma in an object a key; after a key \<^verbatim>\<open>:\<close>; after
  \<^verbatim>\<open>:\<close> a value. The items of an object are stored one by one (\<open>dict_set\<close>), so that of
  two items with one key the second value stays, at the place of the first.
\<close>

datatype frame =
    ArrStart
  | ArrVal "json list"
  | ArrNext "json list"
  | ObjStart
  | ObjKey "(string, json) dict"
  | ObjColon "(string, json) dict" string
  | ObjVal "(string, json) dict" string
  | ObjNext "(string, json) dict"

datatype pstate = Run "frame list" | Fin json

fun expects_value :: "frame list \<Rightarrow> bool" where
  "expects_value [] = True"
| "expects_value (ArrStart # st) = True"
| "expects_value (ArrVal acc # st) = True"
| "expects_value (ObjVal d k # st) = True"
| "expects_value _ = False"

text \<open>A complete value goes to the innermost open container, or is the result.\<close>

fun deliver :: "json \<Rightarrow> frame list \<Rightarrow> exn + pstate" where
  "deliver v [] = Inr (Fin v)"
| "deliver v (ArrStart # st) = Inr (Run (ArrNext [v] # st))"
| "deliver v (ArrVal acc # st) = Inr (Run (ArrNext (acc @ [v]) # st))"
| "deliver v (ObjVal d k # st) = Inr (Run (ObjNext (dict_set k v d) # st))"
| "deliver v _ = Inl JSONDecodeError"

fun key_token :: "string \<Rightarrow> frame list \<Rightarrow> exn + pstate" where
  "key_token s (ObjStart # st) = Inr (Run (ObjColon [] s # st))"
| "key_token s (ObjKey d # st) = Inr (Run (ObjColon d s # st))"
| "key_token s st = deliver (JStr s) st"

fun step :: "token \<Rightarrow> pstate \<Rightarrow> exn + pstate" where
  "step t (Fin v) = Inl JSONDecodeError"
| "step TLBracket (Run st) =
     (if expects_value st then Inr (Run (ArrStart # st)) else Inl JSONDecodeError)"
| "step TLBrace (Run st) =
     (if expects_value st then Inr (Run (ObjStart # st)) else Inl JSONDecodeError)"
| "step TRBracket (Run st) =
     (case st of
        ArrStart # st' \<Rightarrow> deliver (JList []) st'
      | ArrNext acc # st' \<Rightarrow> deliver (JList acc) st'
      | _ \<Rightarrow> Inl JSONDecodeError)"
| "step TRBrace (Run st) =
     (case st of
        ObjStart # st' \<Rightarrow> deliver (JObj []) st'
      | ObjNext d # st' \<Rightarrow> deliver (JObj d) st'
      | _ \<Rightarrow> Inl JSONDecodeError)"
| "step TComma (Run st) =
     (case st of
        ArrNext acc # st' \<Rightarrow> Inr (Run (ArrVal acc # st'))
      | ObjNext d # st' \<Rightarrow> Inr (Run (ObjKey d # st'))
      | _ \<Rightarrow> Inl JSONDecodeError)"
| "step TColon (Run st) =
     (case st of
        ObjColon d k # st' \<Rightarrow> Inr (Run (ObjVal d k # st'))
      | _ \<Rightarrow> Inl JSONDecodeError)"
| "step (TStr s) (Run st) = key_token s st"
| "step TBadStr (Run st) = key_token [] st"
| "step TNull (Run st) = deliver JNull st"
| "step (TBool b) (Run st) = deliver (JBool b) st"
| "step (TInt i) (Run st) = deliver (JInt i) st"
| "step TFloat (Run st) = deliver JNull st"

fun run :: "token list \<Rightarrow> pstate \<Rightarrow> exn + json" where
  "run [] (Fin v) = Inr v"
| "run [] (Run st) = Inl JSONDecodeError"
| "run (t # ts) s = (case step t s of Inl e \<Rightarrow> Inl e | Inr s' \<Rightarrow> run ts s')"

definition outside :: "token \<Rightarrow> bool" where
  "outside t = (t = TFloat \<or> t = TBadStr)"

definition json_loads :: "string \<Rightarrow> exn + json" where
  "json_loads s =
     (case lex s of
        Inl e \<Rightarrow> Inl e
      | Inr ts \<Rightarrow>
          (case run ts (Run []) of
             Inl e \<Rightarrow> Inl e
           | Inr v \<Rightarrow> if list_ex outside ts then Inl OutsideModel else Inr v))"

text \<open>The tokens of the text that \<open>iterencode\<close> writes for a value.\<close>

fun toks :: "json \<Rightarrow> token list" where
  "toks JNull = [TNull]"
| "toks (JBool b) = [TBool b]"
| "toks (JInt i) = [TInt i]"
| "toks (JStr s) = [TStr s]"
| "toks (JList xs) =
     (case xs of
        [] \<Rightarrow> [TLBracket, TRBracket]
      | y # ys \<Rightarrow> TLBracket # toks y @ concat (map (\<lambda>x. TComma # toks x) ys) @ [TRBracket])"
| "toks (JObj kvs) =
     (case kvs of
        [] \<Rightarrow> [TLBrace, TRBrace]
      | kv # rest \<Rightarrow>
          TLBrace # TStr (fst kv) # TColon # toks (snd kv) @
          concat (map (\<lambda>kv. TComma # TStr (fst kv) # TColon # toks (snd kv)) rest) @ [TRBrace])"

text \<open>The text after a value that \<open>iterencode\<close> wrote: nothing, a comma or a line break.\<close>

definition safe_rest :: "string \<Rightarrow> bool" where
  "safe_rest r = (r = [] \<or> hd r = CHR '','' \<or> hd r = CHR 0x0A)"

definition prepend :: "token list \<Rightarrow> exn + token list \<Rightarrow> exn + token list" where
  "prepend ts r = (case r of Inl e \<Rightarrow> Inl e | Inr ts' \<Rightarrow> Inr (ts @ ts'))"

text \<open>The run goes on after a step that did not fail.\<close>

definition after :: "token list \<Rightarrow> exn + pstate \<Rightarrow> exn + json" where
  "after ts r = (case r of Inl e \<Rightarrow> Inl e | Inr s \<Rightarrow> run ts s)"

text \<open>Every value held by the parser is a well-formed value.\<close>

fun wf_frame :: "frame \<Rightarrow> bool" where
  "wf_frame ArrStart = True"
| "wf_frame (ArrVal acc) = list_all wf_json acc"
| "wf_frame (ArrNext acc) = list_all wf_json acc"
| "wf_frame ObjStart = True"
| "wf_frame (ObjKey d) = wf_json (JObj d)"
| "wf_frame (ObjColon d k) = wf_json (JObj d)"
| "wf_frame (ObjVal d k) = wf_json (JObj d)"
| "wf_frame (ObjNext d) = wf_json (JObj d)"

fun wf_pstate :: "pstate \<Rightarrow> bool" where
  "wf_pstate (Run st) = list_all wf_frame st"
| "wf_pstate (Fin v) = wf_json v"

section \<open>The file system and the JSON store\<close>

text \<open>
  A path names a text file, a directory, or nothing. A path without a directory part
  lies in the working directory; the working directory and the root always exist, any
  other directory must be there for a new entry to be made in it. What the
  program does to the file system is recorded in a journal, oldest first, together with
  the messages of \<open>dbx_echo\<close> (without their time stamp). Permissions, links and the
  encoding of text are not modelled.
\<close>

datatype node = File string | Dir

datatype effect =
    Mkdir string
  | WriteFile string string
  | CopyFile string string
  | Echo string

record world =
  nodes :: "string \<rightharpoonup> node"
  journal :: "effect list"

definition log :: "effect \<Rightarrow> world \<Rightarrow> world" where
  "log e w = w\<lparr>journal := journal w @ [e]\<rparr>"

text \<open>\<^verbatim>\<open>os.path.dirname\<close> and \<^verbatim>\<open>os.path.basename\<close>.\<close>

definition dirname :: "string \<Rightarrow> string" where
  "dirname p =
     (let head = rev (dropWhile (\<lambda>c. c \<noteq> CHR ''/'') (rev p))
      in if head \<noteq> [] \<and> \<not> list_all (\<lambda>c. c = CHR ''/'') head
         then rev (dropWhile (\<lambda>c. c = CHR ''/'') (rev head))
         else head)"


text \<open>Why a new entry cannot be made at a path: its directory is missing or is a file.\<close>

definition parent_error :: "(string \<rightharpoonup> node) \<Rightarrow> string \<Rightarrow> exn option" where
  "parent_error fs p =
     (if list_all (\<lambda>c. c = CHR ''/'') (dirname p) then None
      else (case fs (dirname p) of
              None \<Rightarrow> Some FileNotFoundError
            | Some (File t) \<Rightarrow> Some NotADirectoryError
            | Some Dir \<Rightarrow> None))"


text \<open>\<^verbatim>\<open>open(p, "r").read()\<close>.\<close>

definition read_text :: "string \<Rightarrow> world \<Rightarrow> exn + string" where
  "read_text p w =
     (case nodes w p of
        Some (File t) \<Rightarrow> Inr t
      | Some Dir \<Rightarrow> Inl IsADirectoryError
      | None \<Rightarrow>
          (case parent_error (nodes w) p of
             Some NotADirectoryError \<Rightarrow> Inl NotADirectoryError
           | _ \<Rightarrow> Inl FileNotFoundError))"

text \<open>\<^verbatim>\<open>open(p, "w").write(t)\<close>: the file is made or overwritten.\<close>

definition write_text :: "string \<Rightarrow> string \<Rightarrow> world \<Rightarrow> (exn + unit) \<times> world" where
  "write_text p t w =
     (case nodes w p of
        Some Dir \<Rightarrow> (Inl IsADirectoryError, w)
      | Some (File old) \<Rightarrow> (Inr (), log (WriteFile p t) (w\<lparr>nodes := (nodes w)(p \<mapsto> File t)\<rparr>))
      | None \<Rightarrow>
          (case parent_error (nodes w) p of
             Some e \<Rightarrow> (Inl e, w)
           | None \<Rightarrow> (Inr (), log (WriteFile p t) (w\<lparr>nodes := (nodes w)(p \<mapsto> File t)\<rparr>))))"




subsection \<open>The constants of the module\<close>






subsection \<open>read_json, write_json, update_json\<close>

definition read_json :: "string \<Rightarrow> world \<Rightarrow> exn + json" where
  "read_json file_path w =
     (case read_text file_path w of
        Inl e \<Rightarrow> Inl e
      | Inr text \<Rightarrow> json_loads text)"

definition write_json :: "(string, json) dict \<Rightarrow> string \<Rightarrow> world \<Rightarrow> (exn + unit) \<times> world" where
  "write_json content file_path w = write_text file_path (json_dumps (JObj content)) w"

text \<open>
  Only \<^verbatim>\<open>FileNotFoundError\<close> is caught. A content that is not a dictionary has no method
  \<^verbatim>\<open>update\<close>: \<^verbatim>\<open>AttributeError\<close>.
\<close>

definition update_json :: "(string, json) dict \<Rightarrow> string \<Rightarrow> world \<Rightarrow> (exn + unit) \<times> world" where
  "update_json new_content file_path w =
     (case read_json file_path w of
        Inl FileNotFoundError \<Rightarrow> write_json (dict_update [] new_content) file_path w
      | Inl e \<Rightarrow> (Inl e, w)
      | Inr (JObj content) \<Rightarrow> write_json (dict_update content new_content) file_path w
      | Inr other \<Rightarrow> (Inl AttributeError, w))"

subsection \<open>DeploymentFile\<close>

text \<open>
  \<open>path\<close> is the field \<^verbatim>\<open>_path\<close> of the object. \<^verbatim>\<open>read_json(...).get(environment)\<close> is
  \<^verbatim>\<open>None\<close> for a missing key; a content that is not a dictionary has no method \<^verbatim>\<open>get\<close>.
\<close>

definition DeploymentFile_get_environment :: "string \<Rightarrow> string \<Rightarrow> world \<Rightarrow> exn + json" where
  "DeploymentFile_get_environment path environment w =
     (case read_json path w of
        Inl e \<Rightarrow> Inl e
      | Inr (JObj d) \<Rightarrow> Inr (dict_get d environment)
      | Inr other \<Rightarrow> Inl AttributeError)"

definition DeploymentFile_update_environment ::
  "string \<Rightarrow> string \<Rightarrow> (string, json) dict \<Rightarrow> world \<Rightarrow> (exn + unit) \<times> world" where
  "DeploymentFile_update_environment path environment content w =
     (case DeploymentFile_get_environment path environment w of
        Inl e \<Rightarrow> (Inl e, w)
      | Inr (JObj environment_data) \<Rightarrow>
          update_json [(environment, JObj (dict_update environment_data content))] path w
      | Inr other \<Rightarrow> (Inl AttributeError, w))"

subsection \<open>InfoFile\<close>






text \<open>
  A text can be written at a path: the path names a file, or nothing in a directory that
  exists.
\<close>

definition writable :: "world \<Rightarrow> string \<Rightarrow> bool" where
  "writable w p =
     (case nodes w p of
        Some Dir \<Rightarrow> False
      | Some (File t) \<Rightarrow> True
      | None \<Rightarrow> parent_error (nodes w) p = None)"

text \<open>A world with no file and no directory, for examples.\<close>

definition empty_world :: world where
  "empty_world = \<lparr>nodes = Map.empty, journal = []\<rparr>"

section \<open>Facts about dictionaries and split\<close>

lemma map_of_dict_set: "map_of (dict_set k v d) = (map_of d)(k \<mapsto> v)"
  by (induction d) (auto simp: fun_eq_iff)

lemma keys_dict_set: "fst ` set (dict_set k v d) = insert k (fst ` set d)"
  by (induction d) force+

lemma distinct_dict_set:
  "distinct (map fst d) \<Longrightarrow> distinct (map fst (dict_set k v d))"
  by (induction d) (auto simp: keys_dict_set)

lemma split_on_nonempty: "split_on c s \<noteq> []"
  by (induction s) (auto simp: Let_def)

lemma split_on_unfold:
  "split_on c s =
     takeWhile (\<lambda>x. x \<noteq> c) s #
       (if c \<in> set s then split_on c (tl (dropWhile (\<lambda>x. x \<noteq> c) s)) else [])"
proof (induction s)
  case Nil
  show ?case by simp
next
  case (Cons x xs)
  show ?case
  proof (cases "x = c")
    case True
    then show ?thesis by simp
  next
    case False
    with Cons show ?thesis by (simp add: Let_def)
  qed
qed

lemma split_on_length: "2 \<le> length (split_on c s) \<longleftrightarrow> c \<in> set s"
  by (subst split_on_unfold) (simp add: Suc_le_eq split_on_nonempty)

lemma split_on_hd: "hd (split_on c s) = takeWhile (\<lambda>x. x \<noteq> c) s"
  by (subst split_on_unfold) simp

lemma split_on_second:
  "c \<in> set s \<Longrightarrow>
     hd (tl (split_on c s)) = takeWhile (\<lambda>x. x \<noteq> c) (tl (dropWhile (\<lambda>x. x \<noteq> c) s))"
  by (subst split_on_unfold) (simp add: split_on_hd)

lemma split_on_last: "last (split_on c s) = rev (takeWhile (\<lambda>x. x \<noteq> c) (rev s))"
proof (induction s)
  case Nil
  show ?case by simp
next
  case (Cons x xs)
  show ?case
  proof (cases "x = c")
    case True
    with Cons show ?thesis
      by (simp add: split_on_nonempty takeWhile_append)
  next
    case False
    have "last ((x # hd (split_on c xs)) # tl (split_on c xs)) =
          (if tl (split_on c xs) = [] then x # hd (split_on c xs) else last (split_on c xs))"
      using split_on_nonempty [of c xs] by (cases "split_on c xs") auto
    moreover have "tl (split_on c xs) = [] \<longleftrightarrow> c \<notin> set xs"
      by (subst split_on_unfold) (simp add: split_on_nonempty)
    moreover have "c \<notin> set xs \<Longrightarrow> hd (split_on c xs) = xs"
      by (auto simp: split_on_hd)
    ultimately show ?thesis
      using False Cons by (auto simp: Let_def takeWhile_append)
  qed
qed

lemma len2_cases: "2 \<le> length t \<Longrightarrow> \<exists>k v r. t = k # v # r"
  by (cases t; cases "tl t") auto

lemma dict_update_Nil: "dict_update d [] = d"
  by (simp add: dict_update_def)

lemma dict_update_Cons: "dict_update d ((k, v) # n) = dict_update (dict_set k v d) n"
  by (simp add: dict_update_def)

lemma map_of_dict_update: "map_of (dict_update d n) = map_of d ++ map_of (rev n)"
proof (induction n arbitrary: d)
  case Nil
  show ?case by (simp add: dict_update_Nil)
next
  case (Cons p n)
  obtain k v where p: "p = (k, v)" by (cases p)
  have "map_of (dict_update d (p # n)) = map_of (dict_set k v d) ++ map_of (rev n)"
    unfolding p dict_update_Cons by (rule Cons.IH)
  also have "\<dots> = (map_of d ++ [k \<mapsto> v]) ++ map_of (rev n)"
    by (simp only: map_of_dict_set map_add_upd map_add_empty)
  also have "\<dots> = map_of d ++ ([k \<mapsto> v] ++ map_of (rev n))"
    by (rule map_add_assoc [symmetric])
  also have "[k \<mapsto> v] ++ map_of (rev n) = map_of (rev (p # n))"
    unfolding p by (simp only: rev.simps map_of_append) simp
  finally show ?case .
qed

lemma keys_dict_update: "fst ` set (dict_update d n) = fst ` set d \<union> fst ` set n"
proof (induction n arbitrary: d)
  case Nil
  show ?case by (simp add: dict_update_Nil)
next
  case (Cons p n)
  obtain k v where p: "p = (k, v)" by (cases p)
  show ?case
    unfolding p dict_update_Cons Cons.IH keys_dict_set by simp
qed

lemma distinct_dict_update:
  "distinct (map fst d) \<Longrightarrow> distinct (map fst (dict_update d n))"
proof (induction n arbitrary: d)
  case Nil
  then show ?case by (simp add: dict_update_Nil)
next
  case (Cons p n)
  obtain k v where p: "p = (k, v)" by (cases p)
  show ?case
    unfolding p dict_update_Cons
    by (rule Cons.IH) (rule distinct_dict_set [OF Cons.prems])
qed

lemma tags_dict_ok:
  "\<forall>t \<in> set ts. 2 \<le> length t \<Longrightarrow>
     tags_dict ts d = Inr (dict_update d (map (\<lambda>t. (hd t, hd (tl t))) ts))"
proof (induction ts arbitrary: d)
  case Nil
  show ?case by (simp add: dict_update_Nil)
next
  case (Cons t ts)
  from Cons.prems have "2 \<le> length t" by simp
  then obtain k v r where t: "t = k # v # r"
    using len2_cases by blast
  from Cons.prems have "\<forall>t \<in> set ts. 2 \<le> length t" by simp
  from Cons.IH [OF this, of "dict_set k v d"] show ?case
    by (simp add: t dict_update_Cons)
qed

lemma tags_dict_fail:
  "\<exists>t \<in> set ts. length t < 2 \<Longrightarrow> tags_dict ts d = Inl IndexError"
proof (induction ts arbitrary: d)
  case Nil
  then show ?case by simp
next
  case (Cons t ts)
  show ?case
  proof (cases "length t < 2")
    case True
    then show ?thesis by (cases t; cases "tl t") simp_all
  next
    case False
    then have "2 \<le> length t" by simp
    then obtain k v r where t: "t = k # v # r"
      using len2_cases by blast
    from False Cons.prems have "\<exists>t \<in> set ts. length t < 2" by auto
    from Cons.IH [OF this] show ?thesis by (simp add: t)
  qed
qed

lemma map_of_rev_last:
  "i < length ps \<Longrightarrow> \<forall>j. i < j \<and> j < length ps \<longrightarrow> fst (ps ! j) \<noteq> fst (ps ! i) \<Longrightarrow>
     map_of (rev ps) (fst (ps ! i)) = Some (snd (ps ! i))"
proof (induction ps rule: rev_induct)
  case Nil
  then show ?case by simp
next
  case (snoc p ps)
  show ?case
  proof (cases "i = length ps")
    case True
    then show ?thesis by (cases p) simp
  next
    case False
    with snoc.prems have i: "i < length ps" by simp
    have neq: "fst p \<noteq> fst (ps ! i)"
      using snoc.prems(2) [rule_format, of "length ps"] i by (simp add: nth_append)
    have "\<forall>j. i < j \<and> j < length ps \<longrightarrow> fst (ps ! j) \<noteq> fst (ps ! i)"
    proof (intro allI impI)
      fix j assume j: "i < j \<and> j < length ps"
      with snoc.prems(2) [rule_format, of j] i show "fst (ps ! j) \<noteq> fst (ps ! i)"
        by (simp add: nth_append)
    qed
    from snoc.IH [OF i this] neq i show ?thesis
      by (cases p) (simp add: nth_append)
  qed
qed

lemma last_segment:
  "\<exists>b. last (split_on c v) = b \<and> c \<notin> set b \<and> (v = b \<or> (\<exists>pre. v = pre @ c # b))"
proof -
  let ?P = "\<lambda>x. x \<noteq> c"
  let ?b = "rev (takeWhile ?P (rev v))"
  have v: "v = rev (dropWhile ?P (rev v)) @ ?b"
    by (metis rev_append rev_rev_ident takeWhile_dropWhile_id)
  have nb: "c \<notin> set ?b"
    using set_takeWhileD [of c ?P "rev v"] by auto
  have "v = ?b \<or> (\<exists>pre. v = pre @ c # ?b)"
  proof (cases "dropWhile ?P (rev v)")
    case Nil
    with v show ?thesis by simp
  next
    case (Cons x xs)
    have "\<not> ?P (hd (dropWhile ?P (rev v)))"
      by (rule hd_dropWhile) (simp add: Cons)
    with Cons have "x = c" by simp
    with v Cons have "v = rev xs @ c # ?b" by simp
    then show ?thesis by blast
  qed
  with nb show ?thesis by (simp add: split_on_last)
qed

lemma seg_of_split:
  assumes "CHR ''='' \<in> set t"
  shows "hd (split_on CHR ''='' t) = seg_key t" and "hd (tl (split_on CHR ''='' t)) = seg_val t"
  using assms by (simp_all add: seg_key_def seg_val_def split_on_hd split_on_second)

section \<open>Facts about retries\<close>

lemma calls_append: "calls (tr @ tr') = calls tr @ calls tr'"
proof (induction tr)
  case Nil
  show ?case by simp
next
  case (Cons ev tr)
  then show ?case by (cases ev) simp_all
qed

lemma sleeps_append: "sleeps (tr @ tr') = sleeps tr @ sleeps tr'"
proof (induction tr)
  case Nil
  show ?case by simp
next
  case (Cons ev tr)
  then show ?case by (cases ev) simp_all
qed

lemma calls_failed_attempts: "calls (failed_attempts c d b k) = replicate (Suc k) c"
  by (induction k arbitrary: d) simp_all

lemma retry_all_fail:
  assumes "always_fails srv"
  shows "retry_internal (perform srv c) (Suc n) d b w =
           (srv (calls w @ replicate n c) c, w @ failed_attempts c d b n)"
proof (induction n arbitrary: d w)
  case 0
  from assms obtain e where "srv (calls w) c = Inl e"
    unfolding always_fails_def by blast
  then show ?case by (simp add: perform_def)
next
  case (Suc n)
  from assms obtain e where e: "srv (calls w) c = Inl e"
    unfolding always_fails_def by blast
  let ?w = "sleep d (w @ [Called c])"
  have "retry_internal (perform srv c) (Suc (Suc n)) d b w =
        retry_internal (perform srv c) (Suc n) (d * b) b ?w"
    using e by (simp add: perform_def)
  also have "\<dots> = (srv (calls ?w @ replicate n c) c, ?w @ failed_attempts c (d * b) b n)"
    by (rule Suc.IH)
  finally show ?case
    by (simp add: sleep_def calls_append replicate_app_Cons_same)
qed

lemma always_fails_failing_service: "always_fails failing_service"
  by (simp add: always_fails_def failing_service_def)

lemma create_context_all_fail:
  assumes "always_fails srv"
  shows "create_context srv c p w =
      (srv (calls w @ replicate 9 (Query ''POST'' (url c @ ''/contexts/create'') p))
         (Query ''POST'' (url c @ ''/contexts/create'') p),
       w @ failed_attempts (Query ''POST'' (url c @ ''/contexts/create'') p) 5 5 9)"
proof -
  have ten: "(10::nat) = Suc 9" by simp
  show ?thesis
    unfolding create_context_def perform_query_def ten
    by (rule retry_all_fail [OF assms])
qed

lemma failed_attempts_create_context:
  "failed_attempts q (5::int) 5 9 =
      [Called q, Slept 5, Called q, Slept 25, Called q, Slept 125, Called q, Slept 625,
       Called q, Slept 3125, Called q, Slept 15625, Called q, Slept 78125,
       Called q, Slept 390625, Called q, Slept 1953125, Called q]"
  by (simp add: eval_nat_numeral)

lemma single_call:
  "snd (get_command_status srv c p w) =
     w @ [Called (Query ''GET'' (url c @ ''/commands/status'') p)]"
  "snd (cancel_command srv c p w) =
     w @ [Called (Query ''POST'' (url c @ ''/commands/cancel'') p)]"
  "snd (execute_command srv c p w) =
     w @ [Called (Query ''POST'' (url c @ ''/commands/execute'') p)]"
  "snd (get_context_status srv c p w) =
     w @ [Called (Query ''GET'' (url c @ ''/contexts/status'') p)]"
     apply (simp add: get_command_status_def perform_query_def perform_def)
    apply (simp add: cancel_command_def perform_query_def perform_def split: sum.splits)
   apply (simp add: execute_command_def perform_query_def perform_def)
  apply (simp add: get_context_status_def perform_query_def perform_def
      split: sum.splits exn.splits)
  done

section \<open>Facts about replace\<close>

lemma replace_ne_none:
  "\<forall>i. \<not> occurs_at old s i \<Longrightarrow> replace_ne old new s = s"
proof (induction s)
  case Nil
  show ?case by simp
next
  case (Cons x xs)
  from Cons.prems [rule_format, of 0] have n0: "\<not> prefix old (x # xs)"
    by (simp add: occurs_at_def)
  have "\<forall>i. \<not> occurs_at old xs i"
  proof
    fix i
    from Cons.prems [rule_format, of "Suc i"] show "\<not> occurs_at old xs i"
      by (simp add: occurs_at_def)
  qed
  from Cons.IH [OF this] n0 show ?case by simp
qed

lemma replace_ne_first:
  assumes "old \<noteq> []" and "\<forall>i < length pre. \<not> occurs_at old (pre @ old @ post) i"
  shows "replace_ne old new (pre @ old @ post) = pre @ new @ replace_ne old new post"
  using assms(2)
proof (induction pre)
  case Nil
  have "replace_ne old new (old @ post) = new @ replace_ne old new (drop (length old) (old @ post))"
    using assms(1) by (subst replace_ne.simps) simp
  then show ?case by simp
next
  case (Cons x pre)
  from Cons.prems [rule_format, of 0] have n0: "\<not> prefix old (x # pre @ old @ post)"
    by (simp add: occurs_at_def)
  have "\<forall>i < length pre. \<not> occurs_at old (pre @ old @ post) i"
  proof (intro allI impI)
    fix i assume "i < length pre"
    with Cons.prems [rule_format, of "Suc i"] show "\<not> occurs_at old (pre @ old @ post) i"
      by (simp add: occurs_at_def)
  qed
  from Cons.IH [OF this] n0 show ?case by simp
qed

section \<open>Facts about the JSON text\<close>

subsection \<open>Strings and numbers\<close>

lemma less_16_cases:
  "(k::nat) < 16 \<Longrightarrow> k = 0 \<or> k = 1 \<or> k = 2 \<or> k = 3 \<or> k = 4 \<or> k = 5 \<or> k = 6 \<or> k = 7
    \<or> k = 8 \<or> k = 9 \<or> k = 10 \<or> k = 11 \<or> k = 12 \<or> k = 13 \<or> k = 14 \<or> k = 15"
  by arith

lemma hex_val_hex_digit: "k < 16 \<Longrightarrow> hex_val (hex_digit k) = Some k"
  using less_16_cases [of k] by (auto simp: hex_val_def hex_digit_def is_digit_def)

lemma hex4_byte:
  assumes "n < 256"
  shows "hex4 CHR ''0'' CHR ''0'' (hex_digit (n div 16)) (hex_digit (n mod 16)) = Some n"
proof -
  have z: "hex_val CHR ''0'' = Some 0"
    by (simp add: hex_val_def is_digit_def)
  have hi: "hex_val (hex_digit (n div 16)) = Some (n div 16)"
    using assms by (intro hex_val_hex_digit) simp
  have lo: "hex_val (hex_digit (n mod 16)) = Some (n mod 16)"
    by (intro hex_val_hex_digit) simp
  show ?thesis
    by (simp add: hex4_def z hi lo)
qed

lemma scanstring_escape:
  "unescape e = Some ch \<Longrightarrow> e \<noteq> CHR ''u'' \<Longrightarrow>
     scanstring (CHR 0x5C # e # X) = push_char (Some ch) (scanstring X)"
  by simp

lemma scanstring_unicode:
  assumes "n < 256"
  shows "scanstring (CHR 0x5C # CHR ''u'' # CHR ''0'' # CHR ''0'' #
           hex_digit (n div 16) # hex_digit (n mod 16) # X) =
         push_char (Some (char_of n)) (scanstring X)"
  using assms by (simp add: hex4_byte)

lemma scanstring_plain:
  "c \<noteq> CHR 0x22 \<Longrightarrow> c \<noteq> CHR 0x5C \<Longrightarrow> \<not> (of_char c :: nat) < 0x20 \<Longrightarrow>
     scanstring (c # X) = push_char (Some c) (scanstring X)"
  by simp

lemma scanstring_encode_char:
  "scanstring (encode_char c @ X) = push_char (Some c) (scanstring X)"
proof -
  consider (quote) "c = CHR 0x22" | (bs) "c = CHR 0x5C" | (nl) "c = CHR 0x0A" | (cr) "c = CHR 0x0D"
    | (tab) "c = CHR 0x09" | (b) "c = CHR 0x08" | (f) "c = CHR 0x0C"
    | (uni) "c \<noteq> CHR 0x22" "c \<noteq> CHR 0x5C" "c \<noteq> CHR 0x0A" "c \<noteq> CHR 0x0D" "c \<noteq> CHR 0x09"
        "c \<noteq> CHR 0x08" "c \<noteq> CHR 0x0C" "(of_char c :: nat) < 0x20 \<or> 0x7E < (of_char c :: nat)"
    | (plain) "c \<noteq> CHR 0x22" "c \<noteq> CHR 0x5C" "c \<noteq> CHR 0x0A" "c \<noteq> CHR 0x0D" "c \<noteq> CHR 0x09"
        "c \<noteq> CHR 0x08" "c \<noteq> CHR 0x0C" "\<not> ((of_char c :: nat) < 0x20 \<or> 0x7E < (of_char c :: nat))"
    by blast
  then show ?thesis
  proof cases
    case quote
    then show ?thesis by (simp add: encode_char_def unescape_def)
  next
    case bs
    then show ?thesis by (simp add: encode_char_def unescape_def)
  next
    case nl
    then show ?thesis by (simp add: encode_char_def unescape_def)
  next
    case cr
    then show ?thesis by (simp add: encode_char_def unescape_def)
  next
    case tab
    then show ?thesis by (simp add: encode_char_def unescape_def)
  next
    case b
    then show ?thesis by (simp add: encode_char_def unescape_def)
  next
    case f
    then show ?thesis by (simp add: encode_char_def unescape_def)
  next
    case uni
    have enc: "encode_char c = [CHR 0x5C, CHR ''u'', CHR ''0'', CHR ''0'',
         hex_digit (of_char c div 16), hex_digit (of_char c mod 16)]"
      using uni unfolding encode_char_def by (simp only: if_False if_True)
    have "(of_char c :: nat) < 256" by simp
    from scanstring_unicode [OF this, of X] show ?thesis
      unfolding enc by simp
  next
    case plain
    have enc: "encode_char c = [c]"
      using plain unfolding encode_char_def by (simp only: if_False)
    from plain have "\<not> (of_char c :: nat) < 0x20" by simp
    with plain(1,2) show ?thesis
      unfolding enc by (simp del: scanstring.simps add: scanstring_plain)
  qed
qed

lemma scanstring_encoded:
  "scanstring (concat (map encode_char s) @ CHR 0x22 # rest) = Inr (Some s, rest)"
proof (induction s)
  case Nil
  show ?case by simp
next
  case (Cons c s)
  have "scanstring (concat (map encode_char (c # s)) @ CHR 0x22 # rest) =
        scanstring (encode_char c @ (concat (map encode_char s) @ CHR 0x22 # rest))"
    by simp
  also have "\<dots> = push_char (Some c) (scanstring (concat (map encode_char s) @ CHR 0x22 # rest))"
    by (rule scanstring_encode_char)
  also have "\<dots> = Inr (Some (c # s), rest)"
    unfolding Cons.IH by (simp add: push_char_def)
  finally show ?case .
qed

lemma lex_ws: "is_ws c \<Longrightarrow> lex (c # cs) = lex cs"
  by (subst lex.simps) simp

lemma lex_punct: "punct c = Some t \<Longrightarrow> lex (c # cs) = cons_tok t (lex cs)"
  by (subst lex.simps) (auto simp: punct_def is_ws_def split: if_splits)

lemma lex_string:
  "lex (encode_basestring_ascii s @ rest) = cons_tok (TStr s) (lex rest)"
proof -
  have "lex (CHR 0x22 # (concat (map encode_char s) @ CHR 0x22 # rest)) =
        cons_tok (TStr s) (lex rest)"
    by (subst lex.simps) (simp add: scanstring_encoded is_ws_def)
  then show ?thesis by (simp add: encode_basestring_ascii_def)
qed

lemma lex_newline_indent: "lex (newline_indent n @ rest) = lex rest"
proof -
  have sp: "lex (replicate k CHR '' '' @ rest) = lex rest" for k
    by (induction k) (simp_all add: lex_ws is_ws_def)
  show ?thesis
    unfolding newline_indent_def by (simp add: lex_ws is_ws_def sp)
qed

lemma of_char_digit_char: "(of_char (digit_char k) :: nat) = 48 + k mod 10"
proof -
  have "48 + k mod 10 < 256"
    using mod_less_divisor [of 10 k] by linarith
  then show ?thesis by (simp add: digit_char_def)
qed

lemma is_digit_digit_char: "is_digit (digit_char k)"
  using mod_less_divisor [of 10 k] by (simp add: is_digit_def of_char_digit_char)

lemma digit_val_digit_char: "digit_val (digit_char k) = k mod 10"
  by (simp add: digit_val_def of_char_digit_char)

lemma digit_char_zero: "digit_char k = CHR ''0'' \<longleftrightarrow> k mod 10 = 0"
proof -
  have "digit_char k = CHR ''0'' \<longleftrightarrow> (of_char (digit_char k) :: nat) = of_char CHR ''0''"
    by (simp only: of_char_eq_iff)
  then show ?thesis by (simp add: of_char_digit_char)
qed

lemma nat_repr_nonempty: "nat_repr n \<noteq> []"
  by (subst nat_repr.simps) simp

lemma nat_repr_digits: "list_all is_digit (nat_repr n)"
proof (induction n rule: nat_repr.induct)
  case (1 n)
  show ?case
  proof (cases "n < 10")
    case True
    then show ?thesis by (subst nat_repr.simps) (simp add: is_digit_digit_char)
  next
    case False
    with 1 show ?thesis by (subst nat_repr.simps) (simp add: is_digit_digit_char)
  qed
qed

lemma digits_value_snoc: "digits_value (ds @ [c]) = 10 * digits_value ds + digit_val c"
  by (simp add: digits_value_def)

lemma digits_value_nat_repr: "digits_value (nat_repr n) = n"
proof (induction n rule: nat_repr.induct)
  case (1 n)
  show ?case
  proof (cases "n < 10")
    case True
    then show ?thesis
      by (subst nat_repr.simps) (simp add: digits_value_def digit_val_digit_char)
  next
    case False
    with 1 have "digits_value (nat_repr (n div 10)) = n div 10" by simp
    with False show ?thesis
      by (subst nat_repr.simps) (simp add: digits_value_snoc digit_val_digit_char)
  qed
qed

lemma nat_repr_hd_zero: "hd (nat_repr n) = CHR ''0'' \<Longrightarrow> nat_repr n = ''0''"
proof (induction n rule: nat_repr.induct)
  case (1 n)
  show ?case
  proof (cases "n < 10")
    case True
    with "1.prems" have "digit_char n = CHR ''0''"
      by (subst (asm) nat_repr.simps) simp
    then have "digit_char n = CHR ''0''" .
    with True show ?thesis
      by (subst nat_repr.simps) simp
  next
    case False
    then have unf: "nat_repr n = nat_repr (n div 10) @ [digit_char (n mod 10)]"
      by (subst nat_repr.simps) simp
    with "1.prems" nat_repr_nonempty [of "n div 10"] have "hd (nat_repr (n div 10)) = CHR ''0''"
      by simp
    with "1.IH" False have "nat_repr (n div 10) = ''0''" by simp
    then have "digits_value (nat_repr (n div 10)) = 0"
      by (simp add: digits_value_def digit_val_def)
    then have "n div 10 = 0" by (simp add: digits_value_nat_repr)
    with False show ?thesis by simp
  qed
qed

lemma takeWhile_digits:
  "list_all is_digit ds \<Longrightarrow> safe_rest rest \<Longrightarrow> takeWhile is_digit (ds @ rest) = ds"
  by (induction ds) (auto simp: safe_rest_def is_digit_def takeWhile_eq_Nil_iff)

lemma dropWhile_digits:
  "list_all is_digit ds \<Longrightarrow> safe_rest rest \<Longrightarrow> dropWhile is_digit (ds @ rest) = rest"
  by (induction ds) (auto simp: safe_rest_def is_digit_def dropWhile_eq_self_iff)

lemma match_frac_safe: "safe_rest rest \<Longrightarrow> match_frac rest = None"
  by (auto simp: match_frac_def safe_rest_def split: list.splits)

lemma match_exp_safe: "safe_rest rest \<Longrightarrow> match_exp rest = None"
  by (auto simp: match_exp_def safe_rest_def split: list.splits)

lemma match_number_digit_list:
  assumes "safe_rest rest" and "is_digit d" and "list_all is_digit ds'"
    and zero: "d = CHR ''0'' \<Longrightarrow> ds' = []"
  shows "match_number (d # ds' @ rest) = Some (TInt (int (digits_value (d # ds'))), rest)"
    and "match_number (CHR ''-'' # d # ds' @ rest) =
           Some (TInt (- int (digits_value (d # ds'))), rest)"
proof -
  have tw: "takeWhile is_digit (ds' @ rest) = ds'"
    using takeWhile_digits [OF assms(3) assms(1)] .
  have dw: "dropWhile is_digit (ds' @ rest) = rest"
    using dropWhile_digits [OF assms(3) assms(1)] .
  have nf: "match_frac rest = None" and ne: "match_exp rest = None"
    using assms(1) by (simp_all add: match_frac_safe match_exp_safe)
  have nm: "d \<noteq> CHR ''-''"
    using assms(2) by (auto simp: is_digit_def)
  show "match_number (d # ds' @ rest) = Some (TInt (int (digits_value (d # ds'))), rest)"
  proof (cases "d = CHR ''0''")
    case True
    with zero nf ne show ?thesis
      by (simp add: match_number_def Let_def is_digit_def)
  next
    case False
    with nm assms(2) tw dw nf ne show ?thesis
      by (simp add: match_number_def Let_def)
  qed
  show "match_number (CHR ''-'' # d # ds' @ rest) =
           Some (TInt (- int (digits_value (d # ds'))), rest)"
  proof (cases "d = CHR ''0''")
    case True
    with zero nf ne show ?thesis
      by (simp add: match_number_def Let_def is_digit_def)
  next
    case False
    with assms(2) tw dw nf ne show ?thesis
      by (simp add: match_number_def Let_def)
  qed
qed

lemma nat_repr_shape:
  "\<exists>d ds'. nat_repr n = d # ds' \<and> is_digit d \<and> list_all is_digit ds' \<and>
     (d = CHR ''0'' \<longrightarrow> ds' = [])"
proof -
  obtain d ds' where ds: "nat_repr n = d # ds'"
    using nat_repr_nonempty [of n] by (cases "nat_repr n") auto
  have "list_all is_digit (d # ds')"
    using nat_repr_digits [of n] unfolding ds .
  moreover have "d = CHR ''0'' \<longrightarrow> ds' = []"
    using nat_repr_hd_zero [of n] unfolding ds by simp
  ultimately show ?thesis using ds by simp
qed

lemma match_number_int_repr:
  assumes "safe_rest rest"
  shows "match_number (int_repr i @ rest) = Some (TInt i, rest)"
proof -
  let ?n = "nat \<bar>i\<bar>"
  from nat_repr_shape [of ?n] obtain d ds' where
    ds: "nat_repr ?n = d # ds'" and d: "is_digit d" and ds': "list_all is_digit ds'"
    and z: "d = CHR ''0'' \<longrightarrow> ds' = []"
    by blast
  have val: "digits_value (d # ds') = ?n"
    using digits_value_nat_repr [of ?n] unfolding ds .
  note m = match_number_digit_list [OF assms d ds', unfolded val]
  show ?thesis
  proof (cases "i < 0")
    case True
    then have "int_repr i = CHR ''-'' # d # ds'"
      using ds by (simp add: int_repr_def abs_if)
    with m(2) z True show ?thesis by simp
  next
    case False
    then have "int_repr i = d # ds'"
      using ds by (simp add: int_repr_def abs_if)
    with m(1) z False show ?thesis by simp
  qed
qed

lemma int_repr_head:
  "\<exists>c cs. int_repr i = c # cs \<and> (c = CHR ''-'' \<or> is_digit c)"
proof -
  from nat_repr_shape [of "nat \<bar>i\<bar>"] obtain d ds' where
    "nat_repr (nat \<bar>i\<bar>) = d # ds'" and "is_digit d" by blast
  then show ?thesis
    by (cases "i < 0") (auto simp: int_repr_def abs_if)
qed

lemma lex_int:
  assumes "safe_rest rest"
  shows "lex (int_repr i @ rest) = cons_tok (TInt i) (lex rest)"
proof -
  from int_repr_head [of i] obtain c cs where
    ic: "int_repr i = c # cs" and c: "c = CHR ''-'' \<or> is_digit c" by blast
  have w: "\<not> is_ws c" "c \<noteq> CHR 0x22" "punct c = None"
    using c by (auto simp: is_ws_def is_digit_def punct_def)
  have lit: "take 4 (c # cs @ rest) \<noteq> ''null''" "take 4 (c # cs @ rest) \<noteq> ''true''"
    "take 5 (c # cs @ rest) \<noteq> ''false''"
    using c by (auto simp: is_digit_def)
  have "scan_word (c # cs @ rest) = Some (TInt i, rest)"
    using match_number_int_repr [OF assms, of i] lit unfolding ic
    by (simp add: scan_word_def del: take_Cons_numeral)
  then have "lex (c # cs @ rest) = cons_tok (TInt i) (lex rest)"
    using w by (subst lex.simps) simp
  then show ?thesis by (simp add: ic)
qed

lemma lex_null: "lex (''null'' @ rest) = cons_tok TNull (lex rest)"
  by (subst lex.simps) (simp add: is_ws_def punct_def scan_word_def)

lemma lex_true: "lex (''true'' @ rest) = cons_tok (TBool True) (lex rest)"
  by (subst lex.simps) (simp add: is_ws_def punct_def scan_word_def)

lemma lex_false: "lex (''false'' @ rest) = cons_tok (TBool False) (lex rest)"
  by (subst lex.simps) (simp add: is_ws_def punct_def scan_word_def)

subsection \<open>The tokens of a printed value\<close>

lemma prepend_Nil: "prepend [] r = r"
  by (simp add: prepend_def split: sum.splits)

lemma prepend_append: "prepend (a @ b) r = prepend a (prepend b r)"
  by (simp add: prepend_def split: sum.splits)

lemma cons_tok_prepend: "cons_tok t r = prepend [t] r"
  by (simp add: prepend_def cons_tok_def split: sum.splits)

lemma prepend_Cons: "prepend (t # ts) r = prepend [t] (prepend ts r)"
  using prepend_append [of "[t]" ts r] by simp

lemma join_Cons: "xs \<noteq> [] \<Longrightarrow> join sep (x # xs) = x @ sep @ join sep xs"
  by (cases xs) simp_all

lemma safe_rest_comma: "safe_rest (CHR '','' # r)"
  by (simp add: safe_rest_def)

lemma safe_rest_newline: "safe_rest (newline_indent k @ r)"
  by (simp add: safe_rest_def newline_indent_def)

lemma lex_join:
  assumes enc: "\<And>x rest. x \<in> set xs \<Longrightarrow> safe_rest rest \<Longrightarrow> lex (e x @ rest) = prepend (tk x) (lex rest)"
    and ne: "xs \<noteq> []" and safe: "safe_rest rest'"
  shows "lex (join (CHR '','' # newline_indent k) (map e xs) @ rest') =
         prepend (tk (hd xs) @ concat (map (\<lambda>x. TComma # tk x) (tl xs))) (lex rest')"
  using ne enc
proof (induction xs rule: list_nonempty_induct)
  case (single x)
  from single(1) [of x rest'] safe show ?case by simp
next
  case (cons x xs)
  let ?sep = "CHR '','' # newline_indent k"
  have IH: "lex (join ?sep (map e xs) @ rest') =
      prepend (tk (hd xs) @ concat (map (\<lambda>x. TComma # tk x) (tl xs))) (lex rest')"
    by (rule cons.IH) (simp add: cons.prems)
  have "join ?sep (map e (x # xs)) @ rest' = e x @ (?sep @ join ?sep (map e xs) @ rest')"
    using cons.hyps by (simp add: join_Cons)
  then have "lex (join ?sep (map e (x # xs)) @ rest') =
      lex (e x @ (CHR '','' # newline_indent k @ join ?sep (map e xs) @ rest'))"
    by simp
  also have "\<dots> = prepend (tk x) (lex (CHR '','' # newline_indent k @ join ?sep (map e xs) @ rest'))"
    by (rule cons.prems) (simp_all add: safe_rest_comma)
  also have "lex (CHR '','' # newline_indent k @ join ?sep (map e xs) @ rest') =
      prepend [TComma] (lex (join ?sep (map e xs) @ rest'))"
    by (simp add: lex_punct [of "CHR '',''" TComma] punct_def cons_tok_prepend lex_newline_indent)
  also have "prepend (tk x) (prepend [TComma] (lex (join ?sep (map e xs) @ rest'))) =
      prepend (tk (hd (x # xs)) @ concat (map (\<lambda>x. TComma # tk x) (tl (x # xs)))) (lex rest')"
    unfolding IH using cons.hyps
    by (cases xs) (simp_all add: prepend_append [symmetric])
  finally show ?case .
qed

lemma lex_iterencode:
  "safe_rest rest \<Longrightarrow> lex (iterencode level v @ rest) = prepend (toks v) (lex rest)"
proof (induction v arbitrary: level rest)
  case JNull
  show ?case by (simp add: lex_null cons_tok_prepend del: append.simps)
next
  case (JBool b)
  show ?case by (cases b) (simp_all add: lex_true lex_false cons_tok_prepend del: append.simps)
next
  case (JInt i)
  then show ?case by (simp add: lex_int cons_tok_prepend)
next
  case (JStr s)
  show ?case by (simp add: lex_string cons_tok_prepend)
next
  case (JList xs)
  show ?case
  proof (cases "xs = []")
    case True
    then show ?thesis
      by (simp add: lex_punct punct_def cons_tok_prepend prepend_append [symmetric])
  next
    case False
    let ?rest' = "newline_indent level @ CHR '']'' # rest"
    have items: "lex (join (CHR '','' # newline_indent (Suc level)) (map (iterencode (Suc level)) xs) @ ?rest') =
        prepend (toks (hd xs) @ concat (map (\<lambda>x. TComma # toks x) (tl xs))) (lex ?rest')"
      by (rule lex_join) (simp_all add: JList.IH False safe_rest_newline)
    have close: "lex ?rest' = prepend [TRBracket] (lex rest)"
      by (simp add: lex_newline_indent lex_punct punct_def cons_tok_prepend)
    have "lex (iterencode level (JList xs) @ rest) =
        prepend [TLBracket] (lex (join (CHR '','' # newline_indent (Suc level))
          (map (iterencode (Suc level)) xs) @ ?rest'))"
      using False
      by (simp add: lex_punct [of "CHR ''[''" TLBracket] punct_def cons_tok_prepend lex_newline_indent)
    also have "\<dots> = prepend (toks (JList xs)) (lex rest)"
      unfolding items close using False
      by (cases xs) (simp_all add: prepend_append [symmetric])
    finally show ?thesis .
  qed
next
  case (JObj kvs)
  let ?e = "\<lambda>kv. encode_basestring_ascii (fst kv) @ '': '' @ iterencode (Suc level) (snd kv)"
  let ?tk = "\<lambda>kv. TStr (fst kv) # TColon # toks (snd kv)"
  show ?case
  proof (cases "kvs = []")
    case True
    then show ?thesis
      by (simp add: lex_punct punct_def cons_tok_prepend prepend_append [symmetric])
  next
    case False
    let ?rest' = "newline_indent level @ CHR ''}'' # rest"
    have item: "lex (?e kv @ r) = prepend (?tk kv) (lex r)" if "kv \<in> set kvs" "safe_rest r" for kv r
    proof -
      obtain k v where kv: "kv = (k, v)" by (cases kv)
      have "v \<in> Basic_BNFs.snds kv" by (simp add: kv)
      from JObj.IH [OF that(1) this that(2)]
      have v: "lex (iterencode (Suc level) v @ r) = prepend (toks v) (lex r)" .
      have "lex (?e kv @ r) =
          cons_tok (TStr k) (lex (CHR '':'' # CHR '' '' # iterencode (Suc level) v @ r))"
        using lex_string [of k "CHR '':'' # CHR '' '' # iterencode (Suc level) v @ r"]
        by (simp add: kv)
      also have "lex (CHR '':'' # CHR '' '' # iterencode (Suc level) v @ r) =
          cons_tok TColon (lex (iterencode (Suc level) v @ r))"
        by (simp add: lex_punct [of "CHR '':''" TColon] punct_def lex_ws is_ws_def)
      finally show ?thesis
        unfolding v by (simp add: kv cons_tok_prepend prepend_append [symmetric])
    qed
    have items: "lex (join (CHR '','' # newline_indent (Suc level)) (map ?e kvs) @ ?rest') =
        prepend (?tk (hd kvs) @ concat (map (\<lambda>x. TComma # ?tk x) (tl kvs))) (lex ?rest')"
    proof (rule lex_join)
      fix x r assume "x \<in> set kvs" "safe_rest r"
      then show "lex (?e x @ r) = prepend (?tk x) (lex r)" by (rule item)
    next
      show "kvs \<noteq> []" by (rule False)
    next
      show "safe_rest ?rest'" by (rule safe_rest_newline)
    qed
    have close: "lex ?rest' = prepend [TRBrace] (lex rest)"
      by (simp add: lex_newline_indent lex_punct punct_def cons_tok_prepend)
    have "lex (iterencode level (JObj kvs) @ rest) =
        prepend [TLBrace] (lex (join (CHR '','' # newline_indent (Suc level)) (map ?e kvs) @ ?rest'))"
      using False
      by (simp add: lex_punct [of "CHR ''{''" TLBrace] punct_def cons_tok_prepend lex_newline_indent)
    also have "\<dots> = prepend (toks (JObj kvs)) (lex rest)"
      unfolding items close using False
      by (cases kvs) (simp_all add: prepend_append [symmetric])
    finally show ?thesis .
  qed
qed

subsection \<open>Parsing the tokens of a printed value\<close>

lemma dict_set_fresh: "k \<notin> fst ` set d \<Longrightarrow> dict_set k v d = d @ [(k, v)]"
  by (induction d) auto

lemma dict_update_fresh:
  "distinct (map fst (d @ n)) \<Longrightarrow> dict_update d n = d @ n"
proof (induction n arbitrary: d)
  case Nil
  show ?case by (simp add: dict_update_Nil)
next
  case (Cons p n)
  obtain k v where p: "p = (k, v)" by (cases p)
  from Cons.prems have fresh: "k \<notin> fst ` set d"
    by (auto simp: p)
  from Cons.prems have "distinct (map fst ((d @ [(k, v)]) @ n))"
    by (simp add: p)
  from Cons.IH [OF this] show ?case
    by (simp add: p dict_update_Cons dict_set_fresh [OF fresh])
qed

lemma expects_value_deliver: "expects_value st \<Longrightarrow> \<exists>s. deliver v st = Inr s"
  by (induction st rule: expects_value.induct) simp_all

lemma key_token_value: "expects_value st \<Longrightarrow> key_token s st = deliver (JStr s) st"
  by (induction st rule: expects_value.induct) simp_all

lemma run_Cons: "run (t # ts) s = after ts (step t s)"
  by (simp add: after_def)

lemma after_Inr: "after ts (Inr s) = run ts s"
  by (simp add: after_def)

lemma run_array_items:
  assumes "\<And>x st ts. x \<in> set ys \<Longrightarrow> expects_value st \<Longrightarrow>
             run (toks x @ ts) (Run st) = after ts (deliver x st)"
  shows "run (concat (map (\<lambda>x. TComma # toks x) ys) @ TRBracket # ts) (Run (ArrNext acc # st)) =
         after ts (deliver (JList (acc @ ys)) st)"
  using assms
proof (induction ys arbitrary: acc)
  case Nil
  show ?case by (simp add: after_def)
next
  case (Cons y ys)
  have "run (concat (map (\<lambda>x. TComma # toks x) (y # ys)) @ TRBracket # ts) (Run (ArrNext acc # st)) =
        run (toks y @ (concat (map (\<lambda>x. TComma # toks x) ys) @ TRBracket # ts)) (Run (ArrVal acc # st))"
    by simp
  also have "\<dots> = after (concat (map (\<lambda>x. TComma # toks x) ys) @ TRBracket # ts)
                     (deliver y (ArrVal acc # st))"
    by (rule Cons.prems) simp_all
  also have "\<dots> = run (concat (map (\<lambda>x. TComma # toks x) ys) @ TRBracket # ts)
                     (Run (ArrNext (acc @ [y]) # st))"
    by (simp add: after_def)
  also have "\<dots> = after ts (deliver (JList ((acc @ [y]) @ ys)) st)"
    by (rule Cons.IH) (simp add: Cons.prems)
  finally show ?case by simp
qed

lemma run_object_items:
  assumes "\<And>kv st ts. kv \<in> set kvs \<Longrightarrow> expects_value st \<Longrightarrow>
             run (toks (snd kv) @ ts) (Run st) = after ts (deliver (snd kv) st)"
  shows "run (concat (map (\<lambda>kv. TComma # TStr (fst kv) # TColon # toks (snd kv)) kvs) @ TRBrace # ts)
           (Run (ObjNext d # st)) =
         after ts (deliver (JObj (dict_update d kvs)) st)"
  using assms
proof (induction kvs arbitrary: d)
  case Nil
  show ?case by (simp add: after_def dict_update_Nil)
next
  case (Cons kv kvs)
  obtain k v where kv: "kv = (k, v)" by (cases kv)
  let ?more = "concat (map (\<lambda>kv. TComma # TStr (fst kv) # TColon # toks (snd kv)) kvs) @ TRBrace # ts"
  have "run (concat (map (\<lambda>kv. TComma # TStr (fst kv) # TColon # toks (snd kv)) (kv # kvs)) @
             TRBrace # ts) (Run (ObjNext d # st)) =
        run (toks (snd kv) @ ?more) (Run (ObjVal d k # st))"
    by (simp add: kv)
  also have "\<dots> = after ?more (deliver (snd kv) (ObjVal d k # st))"
    by (rule Cons.prems) simp_all
  also have "\<dots> = run ?more (Run (ObjNext (dict_set k v d) # st))"
    by (simp add: after_def kv)
  also have "\<dots> = after ts (deliver (JObj (dict_update (dict_set k v d) kvs)) st)"
    by (rule Cons.IH) (simp add: Cons.prems)
  finally show ?case by (simp add: kv dict_update_Cons)
qed

lemma run_toks:
  "wf_json v \<Longrightarrow> expects_value st \<Longrightarrow> run (toks v @ ts) (Run st) = after ts (deliver v st)"
proof (induction v arbitrary: st ts)
  case JNull
  show ?case by (simp add: after_def)
next
  case (JBool b)
  show ?case by (simp add: after_def)
next
  case (JInt i)
  show ?case by (simp add: after_def)
next
  case (JStr s)
  then show ?case by (simp add: after_def key_token_value)
next
  case (JList xs)
  show ?case
  proof (cases xs)
    case Nil
    with JList.prems show ?thesis by (simp add: after_def)
  next
    case (Cons y ys)
    have el: "run (toks x @ ts') (Run st') = after ts' (deliver x st')"
      if "x \<in> set xs" "expects_value st'" for x st' ts'
      using JList.IH [OF that(1) _ that(2)] JList.prems(1) that(1)
      by (simp add: list_all_iff)
    let ?more = "concat (map (\<lambda>x. TComma # toks x) ys) @ TRBracket # ts"
    have "run (toks (JList xs) @ ts) (Run st) = run (toks y @ ?more) (Run (ArrStart # st))"
      using JList.prems(2) by (simp add: Cons)
    also have "\<dots> = after ?more (deliver y (ArrStart # st))"
      by (rule el) (simp_all add: Cons)
    also have "\<dots> = run ?more (Run (ArrNext [y] # st))"
      by (simp add: after_def)
    also have "\<dots> = after ts (deliver (JList ([y] @ ys)) st)"
      by (rule run_array_items) (simp_all add: el Cons)
    finally show ?thesis by (simp add: Cons)
  qed
next
  case (JObj kvs)
  show ?case
  proof (cases kvs)
    case Nil
    with JObj.prems show ?thesis by (simp add: after_def)
  next
    case (Cons kv rest)
    obtain k v where kv: "kv = (k, v)" by (cases kv)
    have el: "run (toks (snd x) @ ts') (Run st') = after ts' (deliver (snd x) st')"
      if "x \<in> set kvs" "expects_value st'" for x st' ts'
    proof -
      have "snd x \<in> Basic_BNFs.snds x" by (cases x) simp
      moreover have "wf_json (snd x)"
        using JObj.prems(1) that(1) by (simp add: list_all_iff)
      ultimately show ?thesis
        using JObj.IH [OF that(1) _ _ that(2)] by blast
    qed
    have dist: "distinct (map fst kvs)"
      using JObj.prems(1) by simp
    let ?more = "concat (map (\<lambda>kv. TComma # TStr (fst kv) # TColon # toks (snd kv)) rest) @ TRBrace # ts"
    have "run (toks (JObj kvs) @ ts) (Run st) = run (toks (snd kv) @ ?more) (Run (ObjVal [] k # st))"
      using JObj.prems(2) by (simp add: Cons kv)
    also have "\<dots> = after ?more (deliver (snd kv) (ObjVal [] k # st))"
      by (rule el) (simp_all add: Cons)
    also have "\<dots> = run ?more (Run (ObjNext [(k, v)] # st))"
      by (simp add: after_def kv)
    also have "\<dots> = after ts (deliver (JObj (dict_update [(k, v)] rest)) st)"
      by (rule run_object_items) (simp_all add: el Cons)
    also have "dict_update [(k, v)] rest = kvs"
      using dist dict_update_fresh [of "[(k, v)]" rest] by (simp add: Cons kv)
    finally show ?thesis .
  qed
qed

lemma toks_inside: "\<not> list_ex outside (toks v)"
proof (induction v)
  case (JList xs)
  then show ?case
    by (cases xs) (auto simp: outside_def list_ex_iff)
next
  case (JObj kvs)
  have "\<not> list_ex outside (toks (snd kv))" if "kv \<in> set kvs" for kv
  proof -
    have "snd kv \<in> Basic_BNFs.snds kv" by (cases kv) simp
    with JObj that show ?thesis by blast
  qed
  then show ?case
    by (cases kvs) (auto simp: outside_def list_ex_iff)
qed (simp_all add: outside_def)

lemma lex_Nil: "lex [] = Inr []"
  by (subst lex.simps) simp

lemma json_loads_dumps: "wf_json v \<Longrightarrow> json_loads (json_dumps v) = Inr v"
proof -
  assume wf: "wf_json v"
  have "lex (iterencode 0 v @ []) = prepend (toks v) (lex [])"
    by (rule lex_iterencode) (simp add: safe_rest_def)
  then have l: "lex (json_dumps v) = Inr (toks v)"
    by (simp add: json_dumps_def lex_Nil prepend_def)
  have "run (toks v @ []) (Run []) = after [] (deliver v [])"
    by (rule run_toks) (simp_all add: wf)
  then have r: "run (toks v) (Run []) = Inr v"
    by (simp add: after_def)
  show ?thesis
    by (simp add: json_loads_def l r toks_inside)
qed

subsection \<open>Parsed values are well formed\<close>

lemma wf_values_dict_set:
  "list_all (\<lambda>kv. wf_json (snd kv)) d \<Longrightarrow> wf_json v \<Longrightarrow>
     list_all (\<lambda>kv. wf_json (snd kv)) (dict_set k v d)"
  by (induction d) auto

lemma wf_dict_set: "wf_json (JObj d) \<Longrightarrow> wf_json v \<Longrightarrow> wf_json (JObj (dict_set k v d))"
  by (simp add: wf_values_dict_set distinct_dict_set)

lemma wf_dict_update:
  "wf_json (JObj d) \<Longrightarrow> wf_json (JObj n) \<Longrightarrow> wf_json (JObj (dict_update d n))"
proof (induction n arbitrary: d)
  case Nil
  then show ?case by (simp add: dict_update_Nil)
next
  case (Cons p n)
  obtain k v where p: "p = (k, v)" by (cases p)
  from Cons.prems(2) have v: "wf_json v" and n: "wf_json (JObj n)"
    by (simp_all add: p)
  from Cons.prems(1) v have "wf_json (JObj (dict_set k v d))"
    by (rule wf_dict_set)
  from Cons.IH [OF this n] show ?case
    by (simp add: p dict_update_Cons)
qed

lemma wf_lookup: "wf_json (JObj d) \<Longrightarrow> map_of d k = Some v \<Longrightarrow> wf_json v"
  by (auto simp: list_all_iff dest: map_of_SomeD)

lemma wf_deliver:
  "wf_json v \<Longrightarrow> list_all wf_frame st \<Longrightarrow> deliver v st = Inr s \<Longrightarrow> wf_pstate s"
proof (induction v st rule: deliver.induct)
  case (4 v d k st)
  from "4.prems" have "wf_json (JObj (dict_set k v d))"
    by (intro wf_dict_set) simp_all
  with "4.prems" show ?case by auto
qed auto

lemma wf_key_token:
  assumes "list_all wf_frame st" and "key_token k st = Inr s"
  shows "wf_pstate s"
proof -
  have d: "deliver (JStr k) st = Inr s \<Longrightarrow> wf_pstate s"
    using wf_deliver [of "JStr k" st s] assms(1) by simp
  show ?thesis
  proof (cases st)
    case Nil
    with assms(2) d show ?thesis by simp
  next
    case (Cons f st')
    with assms d show ?thesis by (cases f) auto
  qed
qed

lemma wf_step: "wf_pstate s \<Longrightarrow> step t s = Inr s' \<Longrightarrow> wf_pstate s'"
proof (cases s)
  case (Fin v)
  assume "step t s = Inr s'"
  with Fin show ?thesis by simp
next
  case (Run st)
  assume wf: "wf_pstate s" and st: "step t s = Inr s'"
  from wf Run have fr: "list_all wf_frame st" by simp
  show ?thesis
  proof (cases t)
    case TLBrace
    with st Run fr show ?thesis by (auto split: if_splits)
  next
    case TRBrace
    have d: "wf_json (JObj x) \<Longrightarrow> list_all wf_frame st' \<Longrightarrow> deliver (JObj x) st' = Inr s' \<Longrightarrow>
        wf_pstate s'" for x st'
      by (rule wf_deliver)
    from TRBrace st Run fr show ?thesis
      by (auto split: list.splits frame.splits intro!: d)
  next
    case TLBracket
    with st Run fr show ?thesis by (auto split: if_splits)
  next
    case TRBracket
    have d: "wf_json (JList x) \<Longrightarrow> list_all wf_frame st' \<Longrightarrow> deliver (JList x) st' = Inr s' \<Longrightarrow>
        wf_pstate s'" for x st'
      by (rule wf_deliver)
    from TRBracket st Run fr show ?thesis
      by (auto split: list.splits frame.splits intro!: d)
  next
    case TComma
    with st Run fr show ?thesis by (auto split: list.splits frame.splits)
  next
    case TColon
    with st Run fr show ?thesis by (auto split: list.splits frame.splits)
  next
    case TNull
    with st Run fr show ?thesis by (auto intro: wf_deliver [of JNull])
  next
    case (TBool b)
    with st Run fr show ?thesis by (auto intro: wf_deliver [of "JBool b"])
  next
    case (TInt i)
    with st Run fr show ?thesis by (auto intro: wf_deliver [of "JInt i"])
  next
    case (TStr k)
    with st Run fr show ?thesis by (auto intro: wf_key_token)
  next
    case TFloat
    with st Run fr show ?thesis by (auto intro: wf_deliver [of JNull])
  next
    case TBadStr
    with st Run fr show ?thesis by (auto intro: wf_key_token)
  qed
qed

lemma wf_run: "wf_pstate s \<Longrightarrow> run ts s = Inr v \<Longrightarrow> wf_json v"
proof (induction ts arbitrary: s)
  case Nil
  then show ?case by (cases s) simp_all
next
  case (Cons t ts)
  from Cons.prems(2) obtain s' where s': "step t s = Inr s'" and r: "run ts s' = Inr v"
    by (auto split: sum.splits)
  from Cons.prems(1) s' have "wf_pstate s'" by (rule wf_step)
  from Cons.IH [OF this r] show ?case .
qed

lemma json_loads_wf: "json_loads s = Inr v \<Longrightarrow> wf_json v"
proof -
  assume "json_loads s = Inr v"
  then obtain ts where "run ts (Run []) = Inr v"
    by (auto simp: json_loads_def split: sum.splits if_splits)
  with wf_run [of "Run []" ts v] show ?thesis by simp
qed

section \<open>Facts about files\<close>

lemma write_text_ok:
  "writable w p \<Longrightarrow>
     write_text p t w = (Inr (), log (WriteFile p t) (w\<lparr>nodes := (nodes w)(p \<mapsto> File t)\<rparr>))"
  by (auto simp: writable_def write_text_def split: option.splits node.splits)

lemma write_text_fail: "\<not> writable w p \<Longrightarrow> \<exists>e. write_text p t w = (Inl e, w)"
  by (auto simp: writable_def write_text_def split: option.splits node.splits)

lemma write_text_result:
  "write_text p t w = (Inr u, w') \<Longrightarrow>
     writable w p \<and> w' = log (WriteFile p t) (w\<lparr>nodes := (nodes w)(p \<mapsto> File t)\<rparr>)"
  by (auto simp: writable_def write_text_def split: option.splits node.splits)

lemma read_text_written:
  "read_text p (log e (w\<lparr>nodes := (nodes w)(p \<mapsto> File t)\<rparr>)) = Inr t"
  by (simp add: read_text_def log_def)

lemma read_json_written:
  "wf_json (JObj d) \<Longrightarrow>
     read_json p (log e (w\<lparr>nodes := (nodes w)(p \<mapsto> File (json_dumps (JObj d)))\<rparr>)) = Inr (JObj d)"
  by (simp add: read_json_def read_text_written json_loads_dumps)

lemma read_json_file:
  "read_json p w = Inr v \<Longrightarrow> \<exists>t. nodes w p = Some (File t) \<and> json_loads t = Inr v"
  by (auto simp: read_json_def read_text_def split: option.splits node.splits exn.splits)

lemma read_json_writable: "read_json p w = Inr v \<Longrightarrow> writable w p"
  by (auto simp: writable_def dest: read_json_file)

lemma read_json_wf: "read_json p w = Inr v \<Longrightarrow> wf_json v"
  by (auto dest!: read_json_file json_loads_wf)

lemma map_of_dict_update_distinct:
  "distinct (map fst n) \<Longrightarrow>
     map_of (dict_update d n) k = (case map_of n k of Some v \<Rightarrow> Some v | None \<Rightarrow> map_of d k)"
proof -
  assume "distinct (map fst n)"
  then have "distinct (map fst (rev n))" by (simp add: rev_map [symmetric])
  then have "map_of (rev n) = map_of n"
    by (metis distinct_rev map_of_inject_set rev_map set_rev)
  then show ?thesis
    by (simp add: map_of_dict_update map_add_def)
qed


lemma update_json_merge:
  assumes "read_json P w = Inr (JObj C)" and "wf_json (JObj M)"
  shows "\<exists>w'. update_json M P w = (Inr (), w') \<and>
           read_json P w' = Inr (JObj (dict_update C M)) \<and>
           (\<forall>k. map_of (dict_update C M) k =
                  (case map_of M k of Some v \<Rightarrow> Some v | None \<Rightarrow> map_of C k)) \<and>
           (\<forall>q. q \<noteq> P \<longrightarrow> nodes w' q = nodes w q)"
proof -
  let ?D = "dict_update C M"
  let ?w' = "log (WriteFile P (json_dumps (JObj ?D)))
      (w\<lparr>nodes := (nodes w)(P \<mapsto> File (json_dumps (JObj ?D)))\<rparr>)"
  from assms(1) have wfC: "wf_json (JObj C)" by (rule read_json_wf)
  from wfC assms(2) have wfD: "wf_json (JObj ?D)" by (rule wf_dict_update)
  from assms(1) have "writable w P" by (rule read_json_writable)
  then have "write_json ?D P w = (Inr (), ?w')"
    unfolding write_json_def by (rule write_text_ok)
  then have up: "update_json M P w = (Inr (), ?w')"
    using assms(1) by (simp add: update_json_def)
  have rd: "read_json P ?w' = Inr (JObj ?D)"
    using wfD by (rule read_json_written)
  have keys: "\<forall>k. map_of ?D k = (case map_of M k of Some v \<Rightarrow> Some v | None \<Rightarrow> map_of C k)"
    using assms(2) by (simp add: map_of_dict_update_distinct)
  have frame: "\<forall>q. q \<noteq> P \<longrightarrow> nodes ?w' q = nodes w q"
    by (simp add: log_def)
  from up rd keys frame show ?thesis by blast
qed

section \<open>Facts about InfoFile.initialize\<close>




subsection \<open>The primitives\<close>




subsection \<open>The steps of initialize\<close>










section \<open>The claims\<close>

text \<open>
  C1. When the file at \<open>P\<close> holds a dictionary \<open>C\<close>, \<open>update_json M P\<close> succeeds and the file
  then holds the shallow merge \<open>dict_update C M\<close>: a key of \<open>M\<close> has the value that \<open>M\<close> gives
  it, whole; any other key has the value that \<open>C\<close> gives it, and no key of \<open>C\<close> is lost. No
  other path changes.
\<close>

theorem update_json_shallow_merge:
  assumes "read_json P w = Inr (JObj C)" and "wf_json (JObj M)"
  shows "\<exists>w'. update_json M P w = (Inr (), w') \<and>
           read_json P w' = Inr (JObj (dict_update C M)) \<and>
           (\<forall>k. map_of (dict_update C M) k =
                  (case map_of M k of Some v \<Rightarrow> Some v | None \<Rightarrow> map_of C k)) \<and>
           (\<forall>q. q \<noteq> P \<longrightarrow> nodes w' q = nodes w q)"
  using assms by (rule update_json_merge)

theorem update_json_shallow_merge_witness:
  "read_json ''.dbx/lock.json''
     (empty_world\<lparr>nodes := [''.dbx'' \<mapsto> Dir, ''.dbx/lock.json'' \<mapsto>
        File (json_dumps (JObj [(''context_id'', JStr ''old''), (''keep'', JObj [(''a'', JInt 1)])]))]\<rparr>) =
     Inr (JObj [(''context_id'', JStr ''old''), (''keep'', JObj [(''a'', JInt 1)])]) \<and>
   wf_json (JObj [(''context_id'', JStr ''new'')]) \<and>
   read_json ''.dbx/lock.json''
     (snd (update_json [(''context_id'', JStr ''new'')] ''.dbx/lock.json''
        (empty_world\<lparr>nodes := [''.dbx'' \<mapsto> Dir, ''.dbx/lock.json'' \<mapsto>
          File (json_dumps (JObj [(''context_id'', JStr ''old''), (''keep'', JObj [(''a'', JInt 1)])]))]\<rparr>))) =
     Inr (JObj [(''context_id'', JStr ''new''), (''keep'', JObj [(''a'', JInt 1)])])"
proof -
  let ?C = "[(''context_id'', JStr ''old''), (''keep'', JObj [(''a'', JInt 1)])]"
  let ?M = "[(''context_id'', JStr ''new'')]"
  let ?w = "empty_world\<lparr>nodes := [''.dbx'' \<mapsto> Dir, ''.dbx/lock.json'' \<mapsto>
        File (json_dumps (JObj ?C))]\<rparr>"
  have wfC: "wf_json (JObj ?C)" by simp
  have rd: "read_json ''.dbx/lock.json'' ?w = Inr (JObj ?C)"
    using json_loads_dumps [OF wfC] by (simp add: read_json_def read_text_def)
  have wfM: "wf_json (JObj ?M)" by simp
  from update_json_shallow_merge [OF rd wfM] obtain w' where
    up: "update_json ?M ''.dbx/lock.json'' ?w = (Inr (), w')" and
    r: "read_json ''.dbx/lock.json'' w' = Inr (JObj (dict_update ?C ?M))"
    by blast
  have m: "dict_update ?C ?M = [(''context_id'', JStr ''new''), (''keep'', JObj [(''a'', JInt 1)])]"
    by (simp add: dict_update_def)
  from up have "snd (update_json ?M ''.dbx/lock.json'' ?w) = w'" by simp
  with rd wfM r m show ?thesis by (simp only:)
qed




text \<open>
  C3. For every dictionary \<open>M\<close> and path \<open>P\<close>, when \<open>write_json M P\<close> returns, \<open>read_json P\<close>
  yields \<open>M\<close>: the text of \<open>json.dump\<close> is parsed back to the value it was written from.
  The write returns exactly when \<open>P\<close> can be written (a file, or a new name in a
  directory that exists); otherwise it raises and changes nothing.
\<close>

theorem write_json_read_json_roundtrip:
  assumes "wf_json (JObj M)"
  shows "(\<forall>w'. write_json M P w = (Inr (), w') \<longrightarrow> read_json P w' = Inr (JObj M)) \<and>
         (writable w P \<longrightarrow> (\<exists>w'. write_json M P w = (Inr (), w'))) \<and>
         (\<not> writable w P \<longrightarrow> (\<exists>e. write_json M P w = (Inl e, w)))"
proof (intro conjI allI impI)
  fix w'
  assume "write_json M P w = (Inr (), w')"
  then have "w' = log (WriteFile P (json_dumps (JObj M)))
      (w\<lparr>nodes := (nodes w)(P \<mapsto> File (json_dumps (JObj M)))\<rparr>)"
    unfolding write_json_def by (auto dest: write_text_result)
  then show "read_json P w' = Inr (JObj M)"
    using assms by (simp add: read_json_written)
next
  assume "writable w P"
  then show "\<exists>w'. write_json M P w = (Inr (), w')"
    unfolding write_json_def by (simp add: write_text_ok)
next
  assume "\<not> writable w P"
  then show "\<exists>e. write_json M P w = (Inl e, w)"
    unfolding write_json_def by (rule write_text_fail)
qed

theorem write_json_read_json_roundtrip_witness:
  "wf_json (JObj [(''environments'', JObj [(''default'', JObj [(''profile'', JStr ''DEFAULT'')])])]) \<and>
   writable (empty_world\<lparr>nodes := [''.dbx'' \<mapsto> Dir]\<rparr>) ''.dbx/project.json'' \<and>
   read_json ''.dbx/project.json''
     (snd (write_json [(''environments'', JObj [(''default'', JObj [(''profile'', JStr ''DEFAULT'')])])]
        ''.dbx/project.json'' (empty_world\<lparr>nodes := [''.dbx'' \<mapsto> Dir]\<rparr>))) =
     Inr (JObj [(''environments'', JObj [(''default'', JObj [(''profile'', JStr ''DEFAULT'')])])])"
proof -
  let ?M = "[(''environments'', JObj [(''default'', JObj [(''profile'', JStr ''DEFAULT'')])])]"
  let ?w = "empty_world\<lparr>nodes := [''.dbx'' \<mapsto> Dir]\<rparr>"
  have wf: "wf_json (JObj ?M)" by simp
  have wr: "writable ?w ''.dbx/project.json''"
    by (simp add: writable_def empty_world_def parent_error_def dirname_def Let_def)
  from write_json_read_json_roundtrip [OF wf, of "''.dbx/project.json''" ?w] wr
  obtain w' where w': "write_json ?M ''.dbx/project.json'' ?w = (Inr (), w')"
    and r: "read_json ''.dbx/project.json'' w' = Inr (JObj ?M)"
    by blast
  from w' have "snd (write_json ?M ''.dbx/project.json'' ?w) = w'" by simp
  with wf wr r show ?thesis by (simp only:)
qed

text \<open>
  C4. When the deployment file holds a dictionary with no entry for the name,
  \<open>update_environment\<close> raises (\<^verbatim>\<open>AttributeError\<close>: \<^verbatim>\<open>None\<close> has no method \<^verbatim>\<open>update\<close>) and the
  file system is as before, no entry is made. When the entry is a dictionary \<open>old\<close>, the
  call succeeds and the entry is then the shallow merge \<open>dict_update old content\<close>; the
  other entries and the other files are unchanged.
\<close>

theorem update_environment_needs_entry:
  assumes "read_json path w = Inr (JObj D)"
  shows "(map_of D name = None \<longrightarrow>
            DeploymentFile_update_environment path name content w = (Inl AttributeError, w)) \<and>
         (\<forall>old. map_of D name = Some (JObj old) \<and> wf_json (JObj content) \<longrightarrow>
            (\<exists>w'. DeploymentFile_update_environment path name content w = (Inr (), w') \<and>
                  DeploymentFile_get_environment path name w' = Inr (JObj (dict_update old content)) \<and>
                  (\<forall>other. other \<noteq> name \<longrightarrow>
                     DeploymentFile_get_environment path other w' =
                     DeploymentFile_get_environment path other w) \<and>
                  (\<forall>q. q \<noteq> path \<longrightarrow> nodes w' q = nodes w q)))"
proof (intro conjI allI impI)
  assume "map_of D name = None"
  with assms show "DeploymentFile_update_environment path name content w = (Inl AttributeError, w)"
    by (simp add: DeploymentFile_update_environment_def DeploymentFile_get_environment_def
        dict_get_def)
next
  fix old
  assume h: "map_of D name = Some (JObj old) \<and> wf_json (JObj content)"
  let ?new = "JObj (dict_update old content)"
  let ?M = "[(name, ?new)]"
  from assms have wfD: "wf_json (JObj D)" by (rule read_json_wf)
  from h have lk: "map_of D name = Some (JObj old)" and wfc: "wf_json (JObj content)" by simp_all
  from wfD lk have wfo: "wf_json (JObj old)" by (rule wf_lookup)
  from wfo wfc have wfn: "wf_json ?new" by (rule wf_dict_update)
  then have wfM: "wf_json (JObj ?M)" by simp
  from update_json_merge [OF assms wfM] obtain w' where
    up: "update_json ?M path w = (Inr (), w')" and
    rd: "read_json path w' = Inr (JObj (dict_update D ?M))" and
    keys: "\<forall>k. map_of (dict_update D ?M) k =
             (case map_of ?M k of Some v \<Rightarrow> Some v | None \<Rightarrow> map_of D k)" and
    frame: "\<forall>q. q \<noteq> path \<longrightarrow> nodes w' q = nodes w q"
    by blast
  have run: "DeploymentFile_update_environment path name content w = (Inr (), w')"
    using assms h up
    by (simp add: DeploymentFile_update_environment_def DeploymentFile_get_environment_def
        dict_get_def)
  have get: "DeploymentFile_get_environment path name w' = Inr ?new"
    using rd keys by (simp add: DeploymentFile_get_environment_def dict_get_def)
  have others: "\<forall>other. other \<noteq> name \<longrightarrow>
      DeploymentFile_get_environment path other w' = DeploymentFile_get_environment path other w"
    using rd keys assms by (simp add: DeploymentFile_get_environment_def dict_get_def)
  from run get others frame
  show "\<exists>w'. DeploymentFile_update_environment path name content w = (Inr (), w') \<and>
          DeploymentFile_get_environment path name w' = Inr (JObj (dict_update old content)) \<and>
          (\<forall>other. other \<noteq> name \<longrightarrow>
             DeploymentFile_get_environment path other w' =
             DeploymentFile_get_environment path other w) \<and>
          (\<forall>q. q \<noteq> path \<longrightarrow> nodes w' q = nodes w q)"
    by blast
qed

theorem update_environment_needs_entry_witness:
  "read_json ''conf/deployment.json''
     (empty_world\<lparr>nodes := [''conf'' \<mapsto> Dir, ''conf/deployment.json'' \<mapsto>
        File (json_dumps (JObj [(''default'', JObj [(''jobs'', JList []), (''x'', JInt 1)])]))]\<rparr>) =
     Inr (JObj [(''default'', JObj [(''jobs'', JList []), (''x'', JInt 1)])]) \<and>
   map_of [(''default'', JObj [(''jobs'', JList []), (''x'', JInt 1)])] ''prod'' = None \<and>
   fst (DeploymentFile_update_environment ''conf/deployment.json'' ''prod'' [(''x'', JInt 2)]
     (empty_world\<lparr>nodes := [''conf'' \<mapsto> Dir, ''conf/deployment.json'' \<mapsto>
        File (json_dumps (JObj [(''default'', JObj [(''jobs'', JList []), (''x'', JInt 1)])]))]\<rparr>)) =
     Inl AttributeError \<and>
   map_of [(''default'', JObj [(''jobs'', JList []), (''x'', JInt 1)])] ''default'' =
     Some (JObj [(''jobs'', JList []), (''x'', JInt 1)]) \<and>
   wf_json (JObj [(''x'', JInt 2)]) \<and>
   DeploymentFile_get_environment ''conf/deployment.json'' ''default''
     (snd (DeploymentFile_update_environment ''conf/deployment.json'' ''default'' [(''x'', JInt 2)]
       (empty_world\<lparr>nodes := [''conf'' \<mapsto> Dir, ''conf/deployment.json'' \<mapsto>
          File (json_dumps (JObj [(''default'', JObj [(''jobs'', JList []), (''x'', JInt 1)])]))]\<rparr>))) =
     Inr (JObj [(''jobs'', JList []), (''x'', JInt 2)])"
proof -
  let ?old = "[(''jobs'', JList []), (''x'', JInt 1)]"
  let ?D = "[(''default'', JObj ?old)]"
  let ?c = "[(''x'', JInt 2)]"
  let ?w = "empty_world\<lparr>nodes := [''conf'' \<mapsto> Dir, ''conf/deployment.json'' \<mapsto>
        File (json_dumps (JObj ?D))]\<rparr>"
  have wfD: "wf_json (JObj ?D)" by simp
  have rd: "read_json ''conf/deployment.json'' ?w = Inr (JObj ?D)"
    using json_loads_dumps [OF wfD] by (simp add: read_json_def read_text_def)
  have absent: "map_of ?D ''prod'' = None" by simp
  have present: "map_of ?D ''default'' = Some (JObj ?old)" by simp
  have wfc: "wf_json (JObj ?c)" by simp
  note main = update_environment_needs_entry [OF rd]
  from main [of "''prod''" ?c] absent
  have fail: "fst (DeploymentFile_update_environment ''conf/deployment.json'' ''prod'' ?c ?w) =
      Inl AttributeError"
    by simp
  from main [of "''default''" ?c] present wfc obtain w' where
    up: "DeploymentFile_update_environment ''conf/deployment.json'' ''default'' ?c ?w = (Inr (), w')"
    and get: "DeploymentFile_get_environment ''conf/deployment.json'' ''default'' w' =
      Inr (JObj (dict_update ?old ?c))"
    by blast
  have m: "dict_update ?old ?c = [(''jobs'', JList []), (''x'', JInt 2)]"
    by (simp add: dict_update_def)
  from up have "snd (DeploymentFile_update_environment ''conf/deployment.json'' ''default'' ?c ?w) = w'"
    by simp
  with rd absent fail present wfc get m show ?thesis by (simp only:)
qed

text \<open>
  C5. When every transport call fails, \<open>create_context\<close> makes exactly 10 calls of
  \<^verbatim>\<open>POST /contexts/create\<close> and sleeps between consecutive calls, 5, 25, 125, ... seconds
  (nine sleeps, each delay 5 times the one before); then it raises the exception of the
  tenth call. Every other operation of \<open>ApiV1Client\<close> makes exactly one call and never
  sleeps, whatever the service answers.
\<close>

theorem create_context_retries:
  assumes "always_fails srv"
  shows "(\<exists>e. create_context srv c p w =
           (Inl e,
            w @ [Called (Query ''POST'' (url c @ ''/contexts/create'') p), Slept 5,
                 Called (Query ''POST'' (url c @ ''/contexts/create'') p), Slept 25,
                 Called (Query ''POST'' (url c @ ''/contexts/create'') p), Slept 125,
                 Called (Query ''POST'' (url c @ ''/contexts/create'') p), Slept 625,
                 Called (Query ''POST'' (url c @ ''/contexts/create'') p), Slept 3125,
                 Called (Query ''POST'' (url c @ ''/contexts/create'') p), Slept 15625,
                 Called (Query ''POST'' (url c @ ''/contexts/create'') p), Slept 78125,
                 Called (Query ''POST'' (url c @ ''/contexts/create'') p), Slept 390625,
                 Called (Query ''POST'' (url c @ ''/contexts/create'') p), Slept 1953125,
                 Called (Query ''POST'' (url c @ ''/contexts/create'') p)]) \<and>
           srv (calls w @ replicate 9 (Query ''POST'' (url c @ ''/contexts/create'') p))
             (Query ''POST'' (url c @ ''/contexts/create'') p) = Inl e) \<and>
         calls (snd (create_context srv c p w)) =
           calls w @ replicate 10 (Query ''POST'' (url c @ ''/contexts/create'') p) \<and>
         snd (get_command_status srv c p w) =
           w @ [Called (Query ''GET'' (url c @ ''/commands/status'') p)] \<and>
         snd (cancel_command srv c p w) =
           w @ [Called (Query ''POST'' (url c @ ''/commands/cancel'') p)] \<and>
         snd (execute_command srv c p w) =
           w @ [Called (Query ''POST'' (url c @ ''/commands/execute'') p)] \<and>
         snd (get_context_status srv c p w) =
           w @ [Called (Query ''GET'' (url c @ ''/contexts/status'') p)]"
proof -
  let ?q = "Query ''POST'' (url c @ ''/contexts/create'') p"
  from assms obtain e where e: "srv (calls w @ replicate 9 ?q) ?q = Inl e"
    unfolding always_fails_def by blast
  have "create_context srv c p w = (Inl e, w @ failed_attempts ?q 5 5 9)"
    unfolding create_context_all_fail [OF assms] e ..
  then have "create_context srv c p w =
      (Inl e,
       w @ [Called ?q, Slept 5, Called ?q, Slept 25, Called ?q, Slept 125, Called ?q, Slept 625,
            Called ?q, Slept 3125, Called ?q, Slept 15625, Called ?q, Slept 78125,
            Called ?q, Slept 390625, Called ?q, Slept 1953125, Called ?q])"
    unfolding failed_attempts_create_context .
  with e have attempts: "\<exists>e. create_context srv c p w =
      (Inl e,
       w @ [Called ?q, Slept 5, Called ?q, Slept 25, Called ?q, Slept 125, Called ?q, Slept 625,
            Called ?q, Slept 3125, Called ?q, Slept 15625, Called ?q, Slept 78125,
            Called ?q, Slept 390625, Called ?q, Slept 1953125, Called ?q]) \<and>
      srv (calls w @ replicate 9 ?q) ?q = Inl e"
    by blast
  have "replicate 10 ?q = replicate (Suc 9) ?q" by simp
  then have count: "calls (snd (create_context srv c p w)) = calls w @ replicate 10 ?q"
    unfolding create_context_all_fail [OF assms]
    by (simp only: snd_conv calls_append calls_failed_attempts)
  from attempts count single_call [of srv c p w] show ?thesis
    by (intro conjI)
qed

theorem create_context_retries_witness:
  "always_fails failing_service \<and>
   fst (create_context failing_service
          \<lparr>url = ''https://host/api/1.2'', default_headers = 0, verify = True\<rparr>
          (JObj [(''clusterId'', JStr ''c1'')]) []) = Inl HTTPError \<and>
   calls (snd (create_context failing_service
          \<lparr>url = ''https://host/api/1.2'', default_headers = 0, verify = True\<rparr>
          (JObj [(''clusterId'', JStr ''c1'')]) [])) =
     replicate 10 (Query ''POST'' ''https://host/api/1.2/contexts/create''
                     (JObj [(''clusterId'', JStr ''c1'')])) \<and>
   sleeps (snd (create_context failing_service
          \<lparr>url = ''https://host/api/1.2'', default_headers = 0, verify = True\<rparr>
          (JObj [(''clusterId'', JStr ''c1'')]) [])) =
     [5, 25, 125, 625, 3125, 15625, 78125, 390625, 1953125]"
proof -
  let ?c = "\<lparr>url = ''https://host/api/1.2'', default_headers = 0, verify = True\<rparr>"
  let ?p = "JObj [(''clusterId'', JStr ''c1'')]"
  let ?q = "Query ''POST'' (url ?c @ ''/contexts/create'') ?p"
  note main = create_context_retries [OF always_fails_failing_service, of ?c ?p "[]"]
  note run = create_context_all_fail [OF always_fails_failing_service, of ?c ?p "[]"]
  have r: "fst (create_context failing_service ?c ?p []) = Inl HTTPError"
    unfolding run by (simp add: failing_service_def)
  note main [THEN conjunct2, THEN conjunct1]
  then have n: "calls (snd (create_context failing_service ?c ?p [])) =
      replicate 10 (Query ''POST'' ''https://host/api/1.2/contexts/create'' ?p)"
    by simp
  have "sleeps (failed_attempts ?q (5::int) 5 9) =
      [5, 25, 125, 625, 3125, 15625, 78125, 390625, 1953125]"
    unfolding failed_attempts_create_context by simp
  then have s: "sleeps (snd (create_context failing_service ?c ?p [])) =
      [5, 25, 125, 625, 3125, 15625, 78125, 390625, 1953125]"
    unfolding run by (simp only: snd_conv append_Nil)
  from always_fails_failing_service r n s show ?thesis
    by (intro conjI)
qed

text \<open>
  C6, as the code has it. When every upload fails, \<open>upload_file\<close> makes exactly 3 calls of
  \<^verbatim>\<open>mlflow.log_artifact\<close> and sleeps twice between them: 1 second, then 0.3 seconds
  (initial delay 1, multiplied by 0.3 after the sleep). The exception of the third call
  is raised at once: a third delay, 0.09, is never slept.
\<close>

theorem upload_file_retries:
  assumes "always_fails srv"
  shows "\<exists>e. upload_file srv file_path w =
           (Inl e,
            w @ [Called (LogArtifact (posix_str file_path) (posix_parent (posix_str file_path))),
                 Slept 1,
                 Called (LogArtifact (posix_str file_path) (posix_parent (posix_str file_path))),
                 Slept (3 / 10),
                 Called (LogArtifact (posix_str file_path) (posix_parent (posix_str file_path)))]) \<and>
           srv (calls w @
                replicate 2 (LogArtifact (posix_str file_path) (posix_parent (posix_str file_path))))
             (LogArtifact (posix_str file_path) (posix_parent (posix_str file_path))) = Inl e"
proof -
  let ?q = "LogArtifact (posix_str file_path) (posix_parent (posix_str file_path))"
  have three: "(3::nat) = Suc 2" by simp
  have tr: "failed_attempts ?q (1::rat) (3 / 10) 2 =
      [Called ?q, Slept 1, Called ?q, Slept (3 / 10), Called ?q]"
    by (simp add: eval_nat_numeral)
  have run: "upload_file srv file_path w =
      (srv (calls w @ replicate 2 ?q) ?q, w @ failed_attempts ?q 1 (3 / 10) 2)"
    unfolding upload_file_def Let_def three
    by (rule retry_all_fail [OF assms])
  from assms obtain e where e: "srv (calls w @ replicate 2 ?q) ?q = Inl e"
    unfolding always_fails_def by blast
  from run e show ?thesis
    unfolding tr by simp
qed

theorem upload_file_retries_witness:
  "always_fails failing_service \<and>
   upload_file failing_service ''dist/pkg-0.1-py3-none-any.whl'' [] =
     (Inl HTTPError,
      [Called (LogArtifact ''dist/pkg-0.1-py3-none-any.whl'' ''dist''), Slept 1,
       Called (LogArtifact ''dist/pkg-0.1-py3-none-any.whl'' ''dist''), Slept (3 / 10),
       Called (LogArtifact ''dist/pkg-0.1-py3-none-any.whl'' ''dist'')])"
  using upload_file_retries [OF always_fails_failing_service,
      of "''dist/pkg-0.1-py3-none-any.whl''" "[]"]
  by (simp add: always_fails_failing_service failing_service_def
      posix_str_def posix_parent_def posix_format_def posix_root_def posix_parts_def)

theorem upload_file_delays_counterexample:
  "always_fails failing_service \<and>
   sleeps (snd (upload_file failing_service ''dist/pkg-0.1-py3-none-any.whl'' [])) = [1, 3 / 10] \<and>
   sleeps (snd (upload_file failing_service ''dist/pkg-0.1-py3-none-any.whl'' [])) \<noteq>
     [1, 3 / 10, 9 / 100]"
  by (simp add: always_fails_failing_service upload_file_def failing_service_def
      perform_def sleep_def eval_nat_numeral)



text \<open>
  C8. When \<^verbatim>\<open>GITHUB_REF\<close> is set, \<open>get_current_branch_name\<close> returns the last segment of its
  value: the part after the last slash, or the whole value when it has no slash; for
  \<^verbatim>\<open>refs/heads/main\<close> that is \<^verbatim>\<open>main\<close>. When it is not set, the result is no value for a
  detached HEAD, the name of the active branch for an attached HEAD, and no value (no
  exception) where there is no repository.
\<close>

theorem get_current_branch_name_cases:
  "(environ ''GITHUB_REF'' = Some v \<longrightarrow>
      (\<exists>b. get_current_branch_name environ r = Some b \<and> CHR ''/'' \<notin> set b \<and>
           (v = b \<or> (\<exists>pre. v = pre @ CHR ''/'' # b)))) \<and>
   (environ ''GITHUB_REF'' = Some ''refs/heads/main'' \<longrightarrow>
      get_current_branch_name environ r = Some ''main'') \<and>
   (environ ''GITHUB_REF'' = None \<longrightarrow>
      get_current_branch_name environ DetachedHead = None \<and>
      get_current_branch_name environ (OnBranch name) = Some name \<and>
      get_current_branch_name environ NotARepository = None)"
proof (intro conjI impI)
  assume "environ ''GITHUB_REF'' = Some v"
  then have "get_current_branch_name environ r = Some (last (split_on CHR ''/'' v))"
    by (simp add: get_current_branch_name_def)
  with last_segment [of "CHR ''/''" v]
  show "\<exists>b. get_current_branch_name environ r = Some b \<and> CHR ''/'' \<notin> set b \<and>
           (v = b \<or> (\<exists>pre. v = pre @ CHR ''/'' # b))"
    by simp
next
  assume "environ ''GITHUB_REF'' = Some ''refs/heads/main''"
  then show "get_current_branch_name environ r = Some ''main''"
    by (simp add: get_current_branch_name_def)
qed (simp_all add: get_current_branch_name_def)

theorem get_current_branch_name_cases_witness:
  "get_current_branch_name [''GITHUB_REF'' \<mapsto> ''refs/heads/main''] (OnBranch ''dev'') = Some ''main'' \<and>
   get_current_branch_name [''GITHUB_REF'' \<mapsto> ''refs/pull/7/merge''] DetachedHead = Some ''merge'' \<and>
   get_current_branch_name [''HOME'' \<mapsto> ''/root''] DetachedHead = None \<and>
   get_current_branch_name [''HOME'' \<mapsto> ''/root''] (OnBranch ''dev'') = Some ''dev'' \<and>
   get_current_branch_name [''HOME'' \<mapsto> ''/root''] NotARepository = None"
  using get_current_branch_name_cases
    [of "[''GITHUB_REF'' \<mapsto> ''refs/heads/main'']" "''refs/heads/main''" "OnBranch ''dev''"]
    get_current_branch_name_cases
    [of "[''HOME'' \<mapsto> ''/root'']" "''x''" DetachedHead "''dev''"]
  by (simp add: get_current_branch_name_def)

text \<open>
  C9. Constructing \<open>ApiV1Client\<close> from a client leaves every object of the store as it
  was, the passed client and its headers among them: the wrapper's client and its headers
  are new objects, copies of the originals. The url of the wrapper's client is the
  original url after \<^verbatim>\<open>replace('/api/2.0', '/api/1.2')\<close>: when \<^verbatim>\<open>/api/2.0\<close> occurs once,
  between \<open>pre\<close> and \<open>post\<close>, it is \<open>pre\<close>, \<^verbatim>\<open>/api/1.2\<close>, \<open>post\<close>.
\<close>

theorem ApiV1Client_init_frame:
  assumes "is_client h api_client"
  shows "\<exists>v h'. ApiV1Client_init api_client h = Some (v, h') \<and>
           take (length h) h' = h \<and>
           length h \<le> v1_client v \<and>
           is_client h' (v1_client v) \<and>
           length h \<le> default_headers (client_at h' (v1_client v)) \<and>
           h' ! default_headers (client_at h' (v1_client v)) =
             h ! default_headers (client_at h api_client) \<and>
           verify (client_at h' (v1_client v)) = verify (client_at h api_client) \<and>
           url (client_at h' (v1_client v)) =
             str_replace ''/api/2.0'' ''/api/1.2'' (url (client_at h api_client)) \<and>
           (\<forall>pre post.
              url (client_at h api_client) = pre @ ''/api/2.0'' @ post \<and>
              (\<forall>i < length pre. \<not> occurs_at ''/api/2.0'' (pre @ ''/api/2.0'' @ post) i) \<and>
              (\<forall>i. \<not> occurs_at ''/api/2.0'' post i) \<longrightarrow>
              url (client_at h' (v1_client v)) = pre @ ''/api/1.2'' @ post)"
proof -
  from assms obtain c d where
    a: "api_client < length h" and c: "h ! api_client = Client c" and
    dh: "default_headers c < length h" and d: "h ! default_headers c = Headers d"
    by (auto simp: is_client_def split: obj.splits)
  let ?u = "str_replace ''/api/2.0'' ''/api/1.2'' (url c)"
  let ?c' = "c\<lparr>default_headers := length h, url := ?u\<rparr>"
  let ?h' = "h @ [Headers d, Client ?c']"
  let ?v = "\<lparr>v1_client = Suc (length h)\<rparr>"
  have init: "ApiV1Client_init api_client h = Some (?v, ?h')"
    using a c dh d
    by (simp add: ApiV1Client_init_def deepcopy_def alloc_def nth_append list_update_append)
  have cl: "client_at ?h' (v1_client ?v) = ?c'"
    by (simp add: client_at_def nth_append)
  have orig: "client_at h api_client = c"
    using c by (simp add: client_at_def)
  have frame: "take (length h) ?h' = h"
    by simp
  have fresh: "length h \<le> v1_client ?v"
    by simp
  have isc: "is_client ?h' (v1_client ?v)"
    by (simp add: is_client_def nth_append)
  have hdr: "h ! default_headers c = ?h' ! length h"
    using d by (simp add: nth_append)
  have occ: "\<forall>pre post.
      url c = pre @ ''/api/2.0'' @ post \<and>
      (\<forall>i < length pre. \<not> occurs_at ''/api/2.0'' (pre @ ''/api/2.0'' @ post) i) \<and>
      (\<forall>i. \<not> occurs_at ''/api/2.0'' post i) \<longrightarrow>
      ?u = pre @ ''/api/1.2'' @ post"
  proof (intro allI impI)
    fix pre post
    assume h: "url c = pre @ ''/api/2.0'' @ post \<and>
      (\<forall>i < length pre. \<not> occurs_at ''/api/2.0'' (pre @ ''/api/2.0'' @ post) i) \<and>
      (\<forall>i. \<not> occurs_at ''/api/2.0'' post i)"
    have "replace_ne ''/api/2.0'' ''/api/1.2'' (pre @ ''/api/2.0'' @ post) =
          pre @ ''/api/1.2'' @ replace_ne ''/api/2.0'' ''/api/1.2'' post"
      using h by (intro replace_ne_first) simp_all
    moreover have "replace_ne ''/api/2.0'' ''/api/1.2'' post = post"
      using h by (intro replace_ne_none) simp
    ultimately show "?u = pre @ ''/api/1.2'' @ post"
      using h by (simp add: str_replace_def)
  qed
  show ?thesis
    apply (rule exI [of _ ?v])
    apply (rule exI [of _ ?h'])
    unfolding cl orig
    using init frame fresh isc hdr occ
    apply (intro conjI)
            apply simp_all
    done
qed

theorem ApiV1Client_init_frame_witness:
  "is_client
     [Headers [(''Authorization'', ''Bearer t'')],
      Client \<lparr>url = ''https://host/api/2.0'', default_headers = 0, verify = True\<rparr>] 1 \<and>
   ApiV1Client_init 1
     [Headers [(''Authorization'', ''Bearer t'')],
      Client \<lparr>url = ''https://host/api/2.0'', default_headers = 0, verify = True\<rparr>] =
     Some (\<lparr>v1_client = 3\<rparr>,
       [Headers [(''Authorization'', ''Bearer t'')],
        Client \<lparr>url = ''https://host/api/2.0'', default_headers = 0, verify = True\<rparr>,
        Headers [(''Authorization'', ''Bearer t'')],
        Client \<lparr>url = ''https://host/api/1.2'', default_headers = 2, verify = True\<rparr>])"
proof -
  let ?h = "[Headers [(''Authorization'', ''Bearer t'')],
      Client \<lparr>url = ''https://host/api/2.0'', default_headers = 0, verify = True\<rparr>]"
  have ok: "is_client ?h 1"
    by (simp add: is_client_def)
  have u: "str_replace ''/api/2.0'' ''/api/1.2'' ''https://host/api/2.0'' = ''https://host/api/1.2''"
    by code_simp
  from ApiV1Client_init_frame [OF ok] obtain v h' where
    "ApiV1Client_init 1 ?h = Some (v, h')" by blast
  moreover have "ApiV1Client_init 1 ?h =
     Some (\<lparr>v1_client = 3\<rparr>,
       ?h @ [Headers [(''Authorization'', ''Bearer t'')],
        Client \<lparr>url = ''https://host/api/1.2'', default_headers = 2, verify = True\<rparr>])"
    by (simp add: ApiV1Client_init_def deepcopy_def alloc_def u)
  ultimately show ?thesis using ok by simp
qed

text \<open>
  C10. \<open>parse_multiple\<close> is partial. When every string has a \<^verbatim>\<open>=\<close>, it returns a dictionary
  whose keys are the segments before the first \<^verbatim>\<open>=\<close>; the key of a string has the segment
  between its first and second \<^verbatim>\<open>=\<close> as value (what follows a second \<^verbatim>\<open>=\<close> is dropped),
  unless a later string has the same key and overrides it. When some string has no
  \<^verbatim>\<open>=\<close>, the call raises \<^verbatim>\<open>IndexError\<close> and returns no dictionary.
\<close>

theorem parse_multiple_partial:
  "((\<forall>t \<in> set xs. CHR ''='' \<in> set t) \<longrightarrow>
      (\<exists>d. parse_multiple xs = Inr d \<and> distinct (map fst d) \<and>
           fst ` set d = seg_key ` set xs \<and>
           (\<forall>i < length xs.
              (\<forall>j. i < j \<and> j < length xs \<longrightarrow> seg_key (xs ! j) \<noteq> seg_key (xs ! i)) \<longrightarrow>
              map_of d (seg_key (xs ! i)) = Some (seg_val (xs ! i))))) \<and>
   ((\<exists>t \<in> set xs. CHR ''='' \<notin> set t) \<longrightarrow> parse_multiple xs = Inl IndexError) \<and>
   parse_multiple [''env=dev'', ''novalue''] = Inl IndexError"
proof (intro conjI impI)
  assume eq: "\<forall>t \<in> set xs. CHR ''='' \<in> set t"
  let ?sp = "map (split_on CHR ''='') xs"
  let ?ps = "map (\<lambda>t. (seg_key t, seg_val t)) xs"
  let ?d = "dict_update [] ?ps"
  have "\<forall>t \<in> set ?sp. 2 \<le> length t"
    using eq by (simp add: split_on_length)
  then have td: "tags_dict ?sp [] = Inr (dict_update [] (map (\<lambda>t. (hd t, hd (tl t))) ?sp))"
    by (rule tags_dict_ok)
  have "map (\<lambda>t. (hd t, hd (tl t))) ?sp = ?ps"
    using eq by (simp add: seg_of_split)
  with td have "tags_dict ?sp [] = Inr ?d"
    by (simp only:)
  then have res: "parse_multiple xs = Inr ?d"
    by (simp add: parse_multiple_def)
  have dist: "distinct (map fst ?d)"
    by (rule distinct_dict_update) simp
  have keys: "fst ` set ?d = seg_key ` set xs"
    unfolding keys_dict_update by (simp add: image_image)
  have vals: "\<forall>i < length xs.
      (\<forall>j. i < j \<and> j < length xs \<longrightarrow> seg_key (xs ! j) \<noteq> seg_key (xs ! i)) \<longrightarrow>
      map_of ?d (seg_key (xs ! i)) = Some (seg_val (xs ! i))"
  proof (intro allI impI)
    fix i
    assume i: "i < length xs"
      and later: "\<forall>j. i < j \<and> j < length xs \<longrightarrow> seg_key (xs ! j) \<noteq> seg_key (xs ! i)"
    have "i < length ?ps" using i by simp
    moreover have "\<forall>j. i < j \<and> j < length ?ps \<longrightarrow> fst (?ps ! j) \<noteq> fst (?ps ! i)"
      using later i by simp
    ultimately have "map_of (rev ?ps) (fst (?ps ! i)) = Some (snd (?ps ! i))"
      by (rule map_of_rev_last)
    then show "map_of ?d (seg_key (xs ! i)) = Some (seg_val (xs ! i))"
      using i by (simp add: map_of_dict_update)
  qed
  from res dist keys vals
  show "\<exists>d. parse_multiple xs = Inr d \<and> distinct (map fst d) \<and>
           fst ` set d = seg_key ` set xs \<and>
           (\<forall>i < length xs.
              (\<forall>j. i < j \<and> j < length xs \<longrightarrow> seg_key (xs ! j) \<noteq> seg_key (xs ! i)) \<longrightarrow>
              map_of d (seg_key (xs ! i)) = Some (seg_val (xs ! i)))"
    by blast
next
  assume "\<exists>t \<in> set xs. CHR ''='' \<notin> set t"
  then have "\<exists>t \<in> set (map (split_on CHR ''='') xs). length t < 2"
    using split_on_length [of "CHR ''=''"] by (auto simp: not_le [symmetric])
  then show "parse_multiple xs = Inl IndexError"
    by (simp add: parse_multiple_def tags_dict_fail)
next
  show "parse_multiple [''env=dev'', ''novalue''] = Inl IndexError"
    by (simp add: parse_multiple_def)
qed

theorem parse_multiple_partial_witness:
  "list_all (\<lambda>t. CHR ''='' \<in> set t) [''env=dev'', ''k=v=w'', ''env=prod''] \<and>
   parse_multiple [''env=dev'', ''k=v=w'', ''env=prod''] = Inr [(''env'', ''prod''), (''k'', ''v'')] \<and>
   (\<exists>d. parse_multiple [''env=dev'', ''k=v=w'', ''env=prod''] = Inr d \<and>
      map_of d ''k'' = Some ''v'' \<and> map_of d ''env'' = Some ''prod'') \<and>
   list_ex (\<lambda>t. CHR ''='' \<notin> set t) [''env=dev'', ''novalue''] \<and>
   parse_multiple [''env=dev'', ''novalue''] = Inl IndexError"
  using parse_multiple_partial [of "[''env=dev'', ''k=v=w'', ''env=prod'']"]
    parse_multiple_partial [of "[''env=dev'', ''novalue'']"]
  by (simp add: parse_multiple_def dict_update_def)

end
